theory Spec2Isabelle
  imports Main "HOL-Library.Sublist"
begin

section \<open>The Qwen tool-call converter (converters/qwen.py)\<close>

text \<open>
  The converter works on Python \<open>str\<close> values with substring tests, \<open>str.strip\<close>,
  \<open>str.replace\<close> and four regular expressions, all compiled with \<open>re.DOTALL\<close>.
  A Python string is modelled as a \<open>string\<close> (a list of characters, one \<open>char\<close> per
  code point below 256).  The debugging \<open>print\<close> calls have no effect on any returned
  value and are left out.
\<close>

subsection \<open>String primitives of Python\<close>

text \<open>
  \<open>str.strip()\<close> without argument removes the characters for which \<open>str.isspace\<close>
  holds; below code point 256 these are TAB, LF, VT, FF, CR, the separators 0x1C-0x1F,
  the blank, NEL (0x85) and the no-break space (0xA0).
\<close>

definition is_space :: "char \<Rightarrow> bool" where
  "is_space c = (c \<in> set [CHR 0x09, CHR 0x0A, CHR 0x0B, CHR 0x0C, CHR 0x0D,
                           CHR 0x1C, CHR 0x1D, CHR 0x1E, CHR 0x1F, CHR 0x20,
                           CHR 0x85, CHR 0xA0])"

definition strip :: "string \<Rightarrow> string" where
  "strip s = rev (dropWhile is_space (rev (dropWhile is_space s)))"

text \<open>\<open>s.startswith(p)\<close>, \<open>s.endswith(p)\<close> and \<open>t in s\<close>.\<close>

primrec startswith :: "string \<Rightarrow> string \<Rightarrow> bool" where
  "startswith s [] = True"
| "startswith s (p # ps) = (case s of [] \<Rightarrow> False | c # cs \<Rightarrow> c = p \<and> startswith cs ps)"

definition endswith :: "string \<Rightarrow> string \<Rightarrow> bool" where
  "endswith s p = startswith (rev s) (rev p)"

primrec contains :: "string \<Rightarrow> string \<Rightarrow> bool" where
  "contains [] t = startswith [] t"
| "contains (c # cs) t = (startswith (c # cs) t \<or> contains cs t)"

text \<open>
  \<open>s.replace(old, '')\<close>: the occurrences of \<open>old\<close> are deleted from left to right,
  without overlap and without looking again at text already produced.  With an empty
  \<open>old\<close> and an empty replacement Python returns \<open>s\<close>.
\<close>

function replace_empty :: "string \<Rightarrow> string \<Rightarrow> string" where
  "replace_empty old [] = []"
| "replace_empty old (c # cs) =
     (if old = [] then c # cs
      else if startswith (c # cs) old then replace_empty old (drop (length old) (c # cs))
      else c # replace_empty old cs)"
  by pat_completeness auto
termination
  by (relation "measure (\<lambda>(old, s). length s)") auto

text \<open>\<open>str(n)\<close> for an integer: decimal digits, no leading zero, a minus sign if negative.\<close>

definition digit_char :: "nat \<Rightarrow> char" where
  "digit_char d = ''0123456789'' ! (d mod 10)"

fun str_nat :: "nat \<Rightarrow> string" where
  "str_nat n = (if n < 10 then [digit_char n] else str_nat (n div 10) @ [digit_char (n mod 10)])"

declare str_nat.simps [simp del]

definition str_int :: "int \<Rightarrow> string" where
  "str_int i = (if i < 0 then CHR ''-'' # str_nat (nat (- i)) else str_nat (nat i))"

subsection \<open>The regular expressions\<close>

text \<open>
  Every pattern of the module is a literal followed by one or two lazy wildcards
  \<open>.*?\<close>, each closed by a literal:
  \<^item> \<open><function=(.*?)>(.*?)</function>\<close> and \<open><parameter=(.*?)>(.*?)</parameter>\<close>
    (two groups, used with \<open>re.findall\<close>);
  \<^item> \<open><tool_call>.*?</tool_call>\<close> and \<open><function=.*?</function>\<close>
    (no group, used with \<open>re.sub\<close> and \<open>re.search\<close>).
  Under \<open>re.DOTALL\<close> the dot matches every character.  The functions below follow the
  backtracking matcher: a lazy wildcard first tries to consume nothing, and consumes one
  more character each time the rest of the pattern fails.
\<close>

text \<open>A literal at the start of the text; the result is the text after it.\<close>

definition lit :: "string \<Rightarrow> string \<Rightarrow> string option" where
  "lit l s = (if startswith s l then Some (drop (length l) s) else None)"

text \<open>\<open>.*?l\<close> at the start of the text: what the wildcard consumed, and the rest.\<close>

fun lazy_until :: "string \<Rightarrow> string \<Rightarrow> (string \<times> string) option" where
  "lazy_until l [] = (case lit l [] of Some r \<Rightarrow> Some ([], r) | None \<Rightarrow> None)"
| "lazy_until l (c # cs) =
     (case lit l (c # cs) of
        Some r \<Rightarrow> Some ([], r)
      | None \<Rightarrow> map_option (\<lambda>(g, r). (c # g, r)) (lazy_until l cs))"

text \<open>\<open>(.*?)l1(.*?)l2\<close> at the start of the text: both groups, and the rest.\<close>

fun lazy_until2 :: "string \<Rightarrow> string \<Rightarrow> string \<Rightarrow> (string \<times> string \<times> string) option" where
  "lazy_until2 l1 l2 [] =
     (case Option.bind (lit l1 []) (lazy_until l2) of
        Some (g2, r) \<Rightarrow> Some ([], g2, r)
      | None \<Rightarrow> None)"
| "lazy_until2 l1 l2 (c # cs) =
     (case Option.bind (lit l1 (c # cs)) (lazy_until l2) of
        Some (g2, r) \<Rightarrow> Some ([], g2, r)
      | None \<Rightarrow> map_option (\<lambda>(g1, g2, r). (c # g1, g2, r)) (lazy_until2 l1 l2 cs))"

text \<open>The whole pattern at the start of the text.\<close>

definition match_span :: "string \<Rightarrow> string \<Rightarrow> string \<Rightarrow> string option" where
  "match_span l0 l1 s = Option.bind (lit l0 s) (\<lambda>r0. map_option snd (lazy_until l1 r0))"

definition match_block :: "string \<Rightarrow> string \<Rightarrow> string \<Rightarrow> string \<Rightarrow> (string \<times> string \<times> string) option" where
  "match_block l0 l1 l2 s = Option.bind (lit l0 s) (lazy_until2 l1 l2)"

text \<open>\<open>bool(re.search(p, s))\<close>: the pattern matches at some position of the text.\<close>

primrec re_search_span :: "string \<Rightarrow> string \<Rightarrow> string \<Rightarrow> bool" where
  "re_search_span l0 l1 [] = (match_span l0 l1 [] \<noteq> None)"
| "re_search_span l0 l1 (c # cs) = (match_span l0 l1 (c # cs) \<noteq> None \<or> re_search_span l0 l1 cs)"

lemma lit_length: "lit l s = Some r \<Longrightarrow> length r \<le> length s"
  by (auto simp: lit_def split: if_splits)

lemma lit_length_less: "lit l s = Some r \<Longrightarrow> l \<noteq> [] \<Longrightarrow> length r < length s"
  by (cases l; cases s) (auto simp: lit_def split: if_splits)

lemma lazy_until_length: "lazy_until l s = Some (g, r) \<Longrightarrow> length r \<le> length s"
proof (induction s arbitrary: g)
  case Nil
  then show ?case by (auto split: option.splits dest: lit_length)
next
  case (Cons c cs)
  then show ?case by (fastforce split: option.splits dest: lit_length)
qed

lemma lazy_until2_length: "lazy_until2 l1 l2 s = Some (g1, g2, r) \<Longrightarrow> length r \<le> length s"
proof (induction s arbitrary: g1)
  case Nil
  then show ?case
    by (auto split: option.splits Option.bind_splits dest!: lit_length lazy_until_length)
next
  case (Cons c cs)
  show ?case
  proof (cases "Option.bind (lit l1 (c # cs)) (lazy_until l2)")
    case None
    with Cons.prems obtain h1 where "lazy_until2 l1 l2 cs = Some (h1, g2, r)"
      by auto
    from Cons.IH [OF this] show ?thesis by simp
  next
    case (Some p)
    then obtain r0 where r0: "lit l1 (c # cs) = Some r0" "lazy_until l2 r0 = Some p"
      by (auto split: Option.bind_splits)
    with Some Cons.prems have "p = (g2, r)" by (cases p) auto
    with r0 have "length r \<le> length r0" by (auto dest: lazy_until_length)
    with lit_length [OF r0(1)] show ?thesis by simp
  qed
qed

lemma match_span_length: "match_span l0 l1 s = Some r \<Longrightarrow> l0 \<noteq> [] \<Longrightarrow> length r < length s"
  by (auto simp: match_span_def split: Option.bind_splits
      dest!: lit_length_less lazy_until_length)

lemma match_block_length:
  "match_block l0 l1 l2 s = Some (g1, g2, r) \<Longrightarrow> l0 \<noteq> [] \<Longrightarrow> length r < length s"
  by (auto simp: match_block_def split: Option.bind_splits
      dest!: lit_length_less lazy_until2_length)

text \<open>
  \<open>re.sub(p, '', s)\<close>: the matches are found from left to right, each search starting
  where the previous match ended, and are deleted.  \<open>re.findall(p, s)\<close> with the same
  scan returns the pairs of groups.  The patterns of the module start with a non-empty
  literal, so no match is empty; Python's rules for empty matches are not modelled and
  an empty first literal leaves the text alone.
\<close>

function re_sub_span :: "string \<Rightarrow> string \<Rightarrow> string \<Rightarrow> string" where
  "re_sub_span l0 l1 [] = []"
| "re_sub_span l0 l1 (c # cs) =
     (if l0 = [] then c # cs
      else case match_span l0 l1 (c # cs) of
             Some r \<Rightarrow> re_sub_span l0 l1 r
           | None \<Rightarrow> c # re_sub_span l0 l1 cs)"
  by pat_completeness auto
termination
  by (relation "measure (\<lambda>(l0, l1, s). length s)") (auto dest: match_span_length)

function re_findall_block :: "string \<Rightarrow> string \<Rightarrow> string \<Rightarrow> string \<Rightarrow> (string \<times> string) list" where
  "re_findall_block l0 l1 l2 [] = []"
| "re_findall_block l0 l1 l2 (c # cs) =
     (if l0 = [] then []
      else case match_block l0 l1 l2 (c # cs) of
             Some (g1, g2, r) \<Rightarrow> (g1, g2) # re_findall_block l0 l1 l2 r
           | None \<Rightarrow> re_findall_block l0 l1 l2 cs)"
  by pat_completeness auto
termination
  by (relation "measure (\<lambda>(l0, l1, l2, s). length s)") (auto dest: match_block_length)

subsection \<open>The converter\<close>

text \<open>
  \<open>json.loads\<close>, \<open>json.dumps\<close> and the builtin \<open>hash\<close> belong to Python, not to this
  module: they are parameters of the model.  \<open>loads\<close> returns the decoded value or the
  exception that \<open>json.loads\<close> raises on a string: \<open>JSONDecodeError\<close> for a string that
  is not a JSON document, \<open>ValueError\<close> for an integer literal longer than the digit
  limit of the integer conversion, \<open>RecursionError\<close> for a nesting deeper than the
  recursion limit.  \<open>dumps\<close> serialises the arguments; \<open>hash\<close> yields an integer for a
  string.  A function of the module that can raise returns a sum, the exception on the
  left.
\<close>

datatype py_exception = JSONDecodeError | ValueError | RecursionError

text \<open>A stored argument: the trimmed text, or what \<open>json.loads\<close> made of it.\<close>

datatype 'j pyval = PStr string | PJson 'j

text \<open>
  A Python \<open>dict\<close> keeps its keys in the order of their first insertion; assigning to
  a key that is present replaces the value and keeps the position.
\<close>

type_synonym 'j pydict = "(string \<times> 'j pyval) list"

fun dict_set :: "string \<Rightarrow> 'j pyval \<Rightarrow> 'j pydict \<Rightarrow> 'j pydict" where
  "dict_set key v [] = [(key, v)]"
| "dict_set key v ((k, w) # d) = (if k = key then (k, v) # d else (k, w) # dict_set key v d)"

record function_call =
  fn_name :: string
  fn_arguments :: string

record tool_call =
  tc_id :: string
  tc_type :: string
  tc_function :: function_call

text \<open>
  The body of the \<open>try\<close> statement, and the statement with its handler
  \<open>except json.JSONDecodeError\<close>: an exception of another class is not caught.
\<close>

definition try_decode :: "(string \<Rightarrow> py_exception + 'j) \<Rightarrow> string \<Rightarrow> py_exception + 'j pyval" where
  "try_decode loads v =
     (if startswith v ''['' \<or> startswith v ''{''
      then (case loads v of Inl e \<Rightarrow> Inl e | Inr parsed_value \<Rightarrow> Inr (PJson parsed_value))
      else Inr (PStr v))"

definition decode_value :: "(string \<Rightarrow> py_exception + 'j) \<Rightarrow> string \<Rightarrow> py_exception + 'j pyval" where
  "decode_value loads v =
     (case try_decode loads v of
        Inr stored \<Rightarrow> Inr stored
      | Inl e \<Rightarrow> if e = JSONDecodeError then Inr (PStr v) else Inl e)"

text \<open>
  The loop over \<open>param_matches\<close>, with the dictionary \<open>arguments\<close> as state; an
  exception that the \<open>try\<close> statement lets through ends the loop.
\<close>

fun build_arguments ::
  "(string \<Rightarrow> py_exception + 'j) \<Rightarrow> (string \<times> string) list \<Rightarrow> 'j pydict \<Rightarrow>
   py_exception + 'j pydict" where
  "build_arguments loads [] arguments = Inr arguments"
| "build_arguments loads ((param_name, param_value) # ms) arguments =
     (case decode_value loads (strip param_value) of
        Inl e \<Rightarrow> Inl e
      | Inr stored \<Rightarrow> build_arguments loads ms (dict_set (strip param_name) stored arguments))"

definition param_matches :: "string \<Rightarrow> (string \<times> string) list" where
  "param_matches params_block = re_findall_block ''<parameter='' ''>'' ''</parameter>'' params_block"

definition function_matches :: "string \<Rightarrow> (string \<times> string) list" where
  "function_matches content = re_findall_block ''<function='' ''>'' ''</function>'' content"

text \<open>
  The key that is hashed is the f-string \<open>{function_name}_{i}_{len(tool_calls)}\<close>;
  Python's \<open>%\<close> with a positive modulus yields a result from 0 up to the modulus, as
  \<open>mod\<close> on \<open>int\<close> does.
\<close>

definition id_key :: "string \<Rightarrow> nat \<Rightarrow> nat \<Rightarrow> string" where
  "id_key function_name i n = function_name @ ''_'' @ str_nat i @ ''_'' @ str_nat n"

definition make_tool_call ::
  "(string \<Rightarrow> py_exception + 'j) \<Rightarrow> ('j pydict \<Rightarrow> string) \<Rightarrow> (string \<Rightarrow> int) \<Rightarrow>
   nat \<Rightarrow> nat \<Rightarrow> string \<times> string \<Rightarrow> py_exception + tool_call" where
  "make_tool_call loads dumps hash i n m =
     (let function_name = strip (fst m)
      in case build_arguments loads (param_matches (snd m)) [] of
           Inl e \<Rightarrow> Inl e
         | Inr arguments \<Rightarrow>
             Inr \<lparr>tc_id = str_int (hash (id_key function_name i n) mod 1000000000),
                  tc_type = ''function'',
                  tc_function = \<lparr>fn_name = function_name, fn_arguments = dumps arguments\<rparr>\<rparr>)"

text \<open>
  The loop over \<open>enumerate(function_matches)\<close>, with the list \<open>tool_calls\<close> as state;
  an exception ends it, and the function, without a result.
\<close>

fun tool_call_loop ::
  "(string \<Rightarrow> py_exception + 'j) \<Rightarrow> ('j pydict \<Rightarrow> string) \<Rightarrow> (string \<Rightarrow> int) \<Rightarrow>
   nat \<Rightarrow> (string \<times> string) list \<Rightarrow> tool_call list \<Rightarrow> py_exception + tool_call list" where
  "tool_call_loop loads dumps hash i [] tool_calls = Inr tool_calls"
| "tool_call_loop loads dumps hash i (m # ms) tool_calls =
     (case make_tool_call loads dumps hash i (length tool_calls) m of
        Inl e \<Rightarrow> Inl e
      | Inr tool_call \<Rightarrow>
          tool_call_loop loads dumps hash (Suc i) ms (tool_calls @ [tool_call]))"

definition parse_tool_calls ::
  "(string \<Rightarrow> py_exception + 'j) \<Rightarrow> ('j pydict \<Rightarrow> string) \<Rightarrow> (string \<Rightarrow> int) \<Rightarrow>
   string \<Rightarrow> py_exception + tool_call list" where
  "parse_tool_calls loads dumps hash content =
     tool_call_loop loads dumps hash 0 (function_matches content) []"

definition markers :: "string list" where
  "markers = [''<tool_call>'', ''</tool_call>'', ''<function='', ''</function>'',
              ''<parameter='', ''</parameter>'']"

definition has_partial_tool_call :: "string \<Rightarrow> bool" where
  "has_partial_tool_call content =
     (if list_ex (\<lambda>marker. contains content marker) markers then True
      else list_ex (\<lambda>marker. list_ex (\<lambda>i. endswith content (take i marker)) [1..<length marker])
             markers)"

definition is_complete_tool_call :: "string \<Rightarrow> bool" where
  "is_complete_tool_call content =
     (if contains content ''<tool_call>'' then contains content ''</tool_call>''
      else re_search_span ''<function='' ''</function>'' content)"

text \<open>
  \<open>_clean_content\<close> assigns to \<open>content\<close> four times; \<open>removed\<close> is its value after
  the two \<open>re.sub\<close> calls, and each lone-tag test reads the value of that moment.
\<close>

definition removed :: "string \<Rightarrow> string" where
  "removed content =
     re_sub_span ''<function='' ''</function>''
       (re_sub_span ''<tool_call>'' ''</tool_call>'' content)"

definition strip_lone_open :: "string \<Rightarrow> string" where
  "strip_lone_open content =
     (if contains content ''<tool_call>'' \<and> \<not> contains content ''</tool_call>''
      then replace_empty ''<tool_call>'' content else content)"

definition strip_lone_close :: "string \<Rightarrow> string" where
  "strip_lone_close content =
     (if contains content ''</tool_call>'' \<and> \<not> contains content ''<tool_call>''
      then replace_empty ''</tool_call>'' content else content)"

definition clean_content :: "string \<Rightarrow> string" where
  "clean_content content = strip (strip_lone_close (strip_lone_open (removed content)))"

subsection \<open>The text of a function block\<close>

text \<open>
  The texts that the two patterns with groups are written for.  A function block is
  \<open><function=NAME>\<close>, a body and \<open></function>\<close>.  The body is a sequence of parameter
  blocks \<open><parameter=NAME>VALUE</parameter>\<close>, each after some separating text (line
  breaks, as a rule), and a closing text.  A parameter is well formed when its separating
  text has no \<open><parameter=\<close>, its name no \<open>>\<close> and its value no \<open></parameter>\<close>: then the
  pattern finds this name and this value.
\<close>

definition parameter_block :: "string \<times> string \<times> string \<Rightarrow> string" where
  "parameter_block p =
     (case p of (sep, name, v) \<Rightarrow> sep @ ''<parameter='' @ name @ ''>'' @ v @ ''</parameter>'')"

definition function_body :: "(string \<times> string \<times> string) list \<Rightarrow> string \<Rightarrow> string" where
  "function_body ps closing = concat (map parameter_block ps) @ closing"

definition function_block :: "string \<Rightarrow> string \<Rightarrow> string" where
  "function_block name body = ''<function='' @ name @ ''>'' @ body @ ''</function>''"

definition well_formed_parameter :: "string \<times> string \<times> string \<Rightarrow> bool" where
  "well_formed_parameter p =
     (case p of (sep, name, v) \<Rightarrow>
        \<not> sublist ''<parameter='' sep \<and> CHR ''>'' \<notin> set name \<and> \<not> sublist ''</parameter>'' v)"

definition param_name :: "string \<times> string \<times> string \<Rightarrow> string" where
  "param_name p = (case p of (sep, name, v) \<Rightarrow> name)"

definition param_text :: "string \<times> string \<times> string \<Rightarrow> string" where
  "param_text p = (case p of (sep, name, v) \<Rightarrow> v)"


section \<open>Facts about the model\<close>

subsection \<open>The string primitives and the matcher\<close>

text \<open>
  The primitives agree with the notions of the list library: \<open>startswith\<close> is \<open>prefix\<close>,
  \<open>endswith\<close> is \<open>suffix\<close>, and \<open>t in s\<close> is \<open>sublist t s\<close> (a contiguous occurrence).
\<close>

lemma startswith_iff: "startswith s p \<longleftrightarrow> prefix p s"
  by (induction p arbitrary: s) (auto split: list.splits)

lemma contains_iff: "contains s t \<longleftrightarrow> sublist t s"
proof (induction s)
  case Nil
  then show ?case by (simp add: startswith_iff)
next
  case (Cons c cs)
  then show ?case by (simp add: startswith_iff sublist_Cons_right)
qed

lemma endswith_iff: "endswith s p \<longleftrightarrow> suffix p s"
  by (simp add: endswith_def startswith_iff suffix_to_prefix)

lemma lit_Some_iff: "lit l s = Some r \<longleftrightarrow> s = l @ r"
  by (auto simp: lit_def startswith_iff prefix_def)

lemma lit_None_iff: "lit l s = None \<longleftrightarrow> \<not> prefix l s"
  by (simp add: lit_def startswith_iff)


lemma lazy_until_Some: "lazy_until l s = Some (g, r) \<Longrightarrow> s = g @ l @ r"
proof (induction s arbitrary: g)
  case Nil
  then show ?case by (auto simp: lit_Some_iff split: option.splits)
next
  case (Cons c cs)
  then show ?case by (auto simp: lit_Some_iff split: option.splits)
qed

lemma lazy_until2_Some: "lazy_until2 l1 l2 s = Some (g1, g2, r) \<Longrightarrow> s = g1 @ l1 @ g2 @ l2 @ r"
proof (induction s arbitrary: g1)
  case Nil
  then show ?case
    by (auto simp: lit_Some_iff split: option.splits Option.bind_splits dest!: lazy_until_Some)
next
  case (Cons c cs)
  then show ?case
    by (auto simp: lit_Some_iff split: option.splits Option.bind_splits dest!: lazy_until_Some)
qed

lemma match_span_Some: "match_span l0 l1 s = Some r \<Longrightarrow> \<exists>g. s = l0 @ g @ l1 @ r"
  by (auto simp: match_span_def lit_Some_iff split: Option.bind_splits dest!: lazy_until_Some)

lemma match_block_Some: "match_block l0 l1 l2 s = Some (g1, g2, r) \<Longrightarrow> s = l0 @ g1 @ l1 @ g2 @ l2 @ r"
  by (auto simp: match_block_def lit_Some_iff split: Option.bind_splits dest!: lazy_until2_Some)

lemma match_span_None: "\<not> prefix l0 s \<Longrightarrow> match_span l0 l1 s = None"
  by (simp add: match_span_def lit_def startswith_iff)

lemma match_block_None: "\<not> prefix l0 s \<Longrightarrow> match_block l0 l1 l2 s = None"
  by (simp add: match_block_def lit_def startswith_iff)

lemma not_sublist_not_prefix: "\<not> sublist l s \<Longrightarrow> \<not> prefix l s"
  by auto

lemma re_search_span_sublist: "re_search_span l0 l1 s \<Longrightarrow> sublist l0 s \<and> sublist l1 s"
proof (induction s)
  case Nil
  then show ?case by (auto dest!: match_span_Some)
next
  case (Cons c cs)
  show ?case
  proof (cases "match_span l0 l1 (c # cs)")
    case None
    with Cons show ?thesis by (auto simp: sublist_Cons_right)
  next
    case (Some r)
    then obtain g where "c # cs = l0 @ g @ l1 @ r" by (auto dest: match_span_Some)
    then show ?thesis by (metis sublist_appendI sublist_append_rightI  append.assoc)
  qed
qed

lemma re_sub_span_id: "\<not> sublist l0 s \<Longrightarrow> re_sub_span l0 l1 s = s"
  by (induction s) (auto simp: match_span_None not_sublist_not_prefix sublist_Cons_right)

lemma re_findall_block_Nil: "\<not> sublist l0 s \<Longrightarrow> re_findall_block l0 l1 l2 s = []"
  by (induction s) (auto simp: match_block_None not_sublist_not_prefix sublist_Cons_right)

lemma replace_empty_id: "\<not> sublist old s \<Longrightarrow> replace_empty old s = s"
  by (induction s) (auto simp: startswith_iff not_sublist_not_prefix sublist_Cons_right)

subsection \<open>Contents without markers\<close>

lemma strict_prefix_take_iff:
  "p \<noteq> [] \<and> strict_prefix p m \<longleftrightarrow> (\<exists>i\<in>set [1..<length m]. p = take i m)"
proof
  assume h: "p \<noteq> [] \<and> strict_prefix p m"
  then obtain r where r: "m = p @ r" "r \<noteq> []"
    by (auto simp: strict_prefix_def prefix_def)
  with h have "length p \<in> set [1..<length m]" "p = take (length p) m"
    by (auto simp: Suc_le_eq)
  then show "\<exists>i\<in>set [1..<length m]. p = take i m" by blast
next
  assume "\<exists>i\<in>set [1..<length m]. p = take i m"
  then obtain i where i: "1 \<le> i" "i < length m" "p = take i m" by auto
  then have "length p = i" by simp
  with i have "p \<noteq> []" "p \<noteq> m" by auto
  moreover from i have "prefix p m" by (simp add: take_is_prefix)
  ultimately show "p \<noteq> [] \<and> strict_prefix p m" by (simp add: strict_prefix_def)
qed

lemma trailing_marker_prefix_iff:
  "list_ex (\<lambda>marker. list_ex (\<lambda>i. endswith content (take i marker)) [1..<length marker]) ms
   \<longleftrightarrow> (\<exists>m\<in>set ms. \<exists>p. p \<noteq> [] \<and> strict_prefix p m \<and> suffix p content)"
proof -
  have "(\<exists>i\<in>set [1..<length m]. suffix (take i m) content)
        \<longleftrightarrow> (\<exists>p. p \<noteq> [] \<and> strict_prefix p m \<and> suffix p content)" for m
    using strict_prefix_take_iff [of _ m] by metis
  then show ?thesis
    by (simp add: list_ex_iff endswith_iff)
qed

lemma function_matches_Nil: "\<not> sublist ''<function='' content \<Longrightarrow> function_matches content = []"
  by (simp add: function_matches_def re_findall_block_Nil)

lemma parse_tool_calls_Nil:
  "\<not> sublist ''<function='' content \<Longrightarrow> parse_tool_calls loads dumps hash content = Inr []"
  by (simp add: parse_tool_calls_def function_matches_Nil)

lemma removed_id:
  "\<not> sublist ''<tool_call>'' content \<Longrightarrow> \<not> sublist ''<function='' content \<Longrightarrow>
   removed content = content"
  by (simp add: removed_def re_sub_span_id)

lemma strip_lone_fixed:
  "\<not> (sublist ''<tool_call>'' y \<and> \<not> sublist ''</tool_call>'' y) \<Longrightarrow>
   \<not> (sublist ''</tool_call>'' y \<and> \<not> sublist ''<tool_call>'' y) \<Longrightarrow>
   strip_lone_close (strip_lone_open y) = y"
  unfolding strip_lone_close_def strip_lone_open_def contains_iff
  by (simp only: if_False simp_thms split: if_splits)

subsection \<open>Trimming, and the texts that cleaning leaves alone\<close>

lemma dropWhile_fixed: "xs = [] \<or> \<not> P (hd xs) \<Longrightarrow> dropWhile P xs = xs"
  by (cases xs) auto

lemma dropWhile_head: "dropWhile P xs = [] \<or> \<not> P (hd (dropWhile P xs))"
  using hd_dropWhile [of P xs] by blast

lemma rev_dropWhile_rev_head:
  assumes "rev (dropWhile P (rev t)) \<noteq> []"
  shows "hd (rev (dropWhile P (rev t))) = hd t"
proof -
  have "rev (rev t) = rev (takeWhile P (rev t) @ dropWhile P (rev t))"
    by (simp only: takeWhile_dropWhile_id)
  then have "t = rev (dropWhile P (rev t)) @ rev (takeWhile P (rev t))"
    by (simp only: rev_rev_ident rev_append)
  with assms show ?thesis by (metis hd_append2)
qed

lemma strip_head: "strip s = [] \<or> \<not> is_space (hd (strip s))"
proof (cases "strip s = []")
  case False
  then have "hd (strip s) = hd (dropWhile is_space s)"
    unfolding strip_def by (rule rev_dropWhile_rev_head)
  moreover from False have "dropWhile is_space s \<noteq> []" by (auto simp only: strip_def dropWhile.simps rev.simps)
  ultimately show ?thesis using dropWhile_head [of is_space s] by metis
qed simp

lemma strip_last: "strip s = [] \<or> \<not> is_space (last (strip s))"
proof (cases "strip s = []")
  case False
  then have "dropWhile is_space (rev (dropWhile is_space s)) \<noteq> []" by (simp add: strip_def)
  with dropWhile_head [of is_space "rev (dropWhile is_space s)"]
  show ?thesis by (simp add: strip_def last_rev)
qed simp

lemma strip_fixed: "s = [] \<or> (\<not> is_space (hd s) \<and> \<not> is_space (last s)) \<Longrightarrow> strip s = s"
proof (cases "s = []")
  case True
  then show ?thesis by (simp add: strip_def)
next
  case False
  assume "s = [] \<or> (\<not> is_space (hd s) \<and> \<not> is_space (last s))"
  with False have h: "\<not> is_space (hd s)" "\<not> is_space (last s)" by auto
  from h(1) have "dropWhile is_space s = s" by (simp add: dropWhile_fixed)
  moreover from h(2) False have "dropWhile is_space (rev s) = rev s"
    by (simp add: dropWhile_fixed hd_rev)
  ultimately show ?thesis by (simp add: strip_def)
qed

lemma strip_strip: "strip (strip s) = strip s"
  using strip_head [of s] strip_last [of s] by (intro strip_fixed) blast

lemma re_sub_span_no_match: "\<not> re_search_span l0 l1 s \<Longrightarrow> re_sub_span l0 l1 s = s"
  by (induction s) auto

lemma clean_content_fixed:
  assumes "\<not> re_search_span ''<tool_call>'' ''</tool_call>'' y"
    and "\<not> re_search_span ''<function='' ''</function>'' y"
    and "sublist ''<tool_call>'' y \<longleftrightarrow> sublist ''</tool_call>'' y"
  shows "clean_content y = strip y"
proof -
  from assms(1) have "re_sub_span ''<tool_call>'' ''</tool_call>'' y = y"
    by (rule re_sub_span_no_match)
  moreover from assms(2) have "re_sub_span ''<function='' ''</function>'' y = y"
    by (rule re_sub_span_no_match)
  ultimately have "removed y = y"
    by (simp only: removed_def)
  moreover from assms(3) have "strip_lone_close (strip_lone_open y) = y"
    by (intro strip_lone_fixed) blast+
  ultimately show ?thesis by (simp only: clean_content_def)
qed

subsection \<open>A content with the opening wrapper tag\<close>

lemma is_complete_wrapped_iff_closed_aux:
  "sublist ''<tool_call>'' content \<Longrightarrow>
   is_complete_tool_call content = sublist ''</tool_call>'' content"
  by (simp only: is_complete_tool_call_def contains_iff if_True)

subsection \<open>The loop of the parser and the identifiers\<close>

text \<open>
  When the loop of \<open>parse_tool_calls\<close> returns, it has made one tool call per function
  block, in the order of the blocks; when block number \<open>k\<close> is reached,
  \<open>len(tool_calls)\<close> is \<open>k\<close> as well.  The loop returns unless the arguments of some
  block raise.
\<close>

lemma tool_call_loop_Inr:
  "tool_call_loop loads dumps hash i ms tcs = Inr res \<Longrightarrow>
   \<exists>new. res = tcs @ new
     \<and> list_all2 (\<lambda>km t. make_tool_call loads dumps hash (i + fst km) (length tcs + fst km) (snd km) = Inr t)
           (enumerate 0 ms) new"
proof (induction ms arbitrary: i tcs)
  case Nil
  then show ?case by simp
next
  case (Cons m ms)
  from Cons.prems obtain tc where
    tc: "make_tool_call loads dumps hash i (length tcs) m = Inr tc"
    and r: "tool_call_loop loads dumps hash (Suc i) ms (tcs @ [tc]) = Inr res"
    by (auto split: sum.splits)
  from Cons.IH [OF r] obtain new where
    na: "res = (tcs @ [tc]) @ new
      \<and> list_all2 (\<lambda>km t. make_tool_call loads dumps hash (Suc i + fst km) (length (tcs @ [tc]) + fst km) (snd km) = Inr t)
              (enumerate 0 ms) new" ..
  from na have new: "res = (tcs @ [tc]) @ new" by (rule conjunct1)
  from na have a: "list_all2 (\<lambda>km t. make_tool_call loads dumps hash (Suc i + fst km) (length (tcs @ [tc]) + fst km) (snd km) = Inr t)
              (enumerate 0 ms) new"
    by (rule conjunct2)
  have e: "enumerate (Suc 0) ms = map (\<lambda>km. (Suc (fst km), snd km)) (enumerate 0 ms)"
    by (simp add: enumerate_Suc_eq apfst_def map_prod_def case_prod_unfold)
  from a have "list_all2 (\<lambda>km t. make_tool_call loads dumps hash (i + fst km) (length tcs + fst km) (snd km) = Inr t)
              (map (\<lambda>km. (Suc (fst km), snd km)) (enumerate 0 ms)) new"
    by (simp add: list_all2_map1)
  then have "list_all2 (\<lambda>km t. make_tool_call loads dumps hash (i + fst km) (length tcs + fst km) (snd km) = Inr t)
              (enumerate (Suc 0) ms) new"
    by (simp only: e)
  with tc have l: "list_all2 (\<lambda>km t. make_tool_call loads dumps hash (i + fst km) (length tcs + fst km) (snd km) = Inr t)
              (enumerate 0 (m # ms)) (tc # new)"
    by simp
  from new have "res = tcs @ tc # new" by simp
  with l show ?case by (intro exI [of _ "tc # new"] conjI)
qed

lemma tool_call_loop_returns:
  "\<forall>m\<in>set ms. \<exists>arguments. build_arguments loads (param_matches (snd m)) [] = Inr arguments \<Longrightarrow>
   \<exists>res. tool_call_loop loads dumps hash i ms tcs = Inr res"
proof (induction ms arbitrary: i tcs)
  case Nil
  show ?case by simp
next
  case (Cons m ms)
  then obtain arguments where "build_arguments loads (param_matches (snd m)) [] = Inr arguments"
    by auto
  then have "\<exists>tc. make_tool_call loads dumps hash i (length tcs) m = Inr tc"
    by (simp add: make_tool_call_def Let_def)
  then obtain tc where "make_tool_call loads dumps hash i (length tcs) m = Inr tc" ..
  moreover from Cons have "\<exists>res. tool_call_loop loads dumps hash (Suc i) ms (tcs @ [tc]) = Inr res"
    by simp
  ultimately show ?case by simp
qed

lemma make_tool_call_Inr:
  assumes "make_tool_call loads dumps hash i n m = Inr tc"
  shows "fn_name (tc_function tc) = strip (fst m)"
    and "tc_id tc = str_int (hash (id_key (strip (fst m)) i n) mod 1000000000)"
  using assms by (auto simp: make_tool_call_def Let_def split: sum.splits)

lemma parse_tool_calls_Inr:
  assumes "parse_tool_calls loads dumps hash content = Inr tcs"
  shows "list_all2 (\<lambda>km t. make_tool_call loads dumps hash (fst km) (fst km) (snd km) = Inr t)
           (enumerate 0 (function_matches content)) tcs"
  using tool_call_loop_Inr [of loads dumps hash 0 "function_matches content" "[]" tcs] assms
  by (simp add: parse_tool_calls_def)

lemma list_all2_map_eq:
  "list_all2 R xs ys \<Longrightarrow> (\<And>x y. R x y \<Longrightarrow> f y = g x) \<Longrightarrow> map f ys = map g xs"
  by (induction rule: list_all2_induct) auto

lemma parse_tool_calls_names:
  assumes "parse_tool_calls loads dumps hash content = Inr tcs"
  shows "map (\<lambda>tc. fn_name (tc_function tc)) tcs
         = map (\<lambda>m. strip (fst m)) (function_matches content)"
proof -
  have "map (\<lambda>tc. fn_name (tc_function tc)) tcs
        = map (\<lambda>km. strip (fst (snd km))) (enumerate 0 (function_matches content))"
    using parse_tool_calls_Inr [OF assms] by (rule list_all2_map_eq) (rule make_tool_call_Inr)
  also have "\<dots> = map ((\<lambda>m. strip (fst m)) \<circ> snd) (enumerate 0 (function_matches content))"
    by (simp only: comp_def)
  also have "\<dots> = map (\<lambda>m. strip (fst m)) (map snd (enumerate 0 (function_matches content)))"
    by (simp only: map_map)
  also have "\<dots> = map (\<lambda>m. strip (fst m)) (function_matches content)"
    by (simp only: map_snd_enumerate)
  finally show ?thesis .
qed

lemma length_parse_tool_calls:
  "parse_tool_calls loads dumps hash content = Inr tcs \<Longrightarrow>
   length tcs = length (function_matches content)"
  using parse_tool_calls_Inr [of loads dumps hash content tcs]
  by (auto dest: list_all2_lengthD)

lemma tool_call_ids_range:
  assumes "parse_tool_calls loads dumps hash content = Inr tcs"
  shows "set (map tc_id tcs) \<subseteq> str_int ` {0..<1000000000}"
proof
  fix x
  assume "x \<in> set (map tc_id tcs)"
  then obtain tc where tc: "tc \<in> set tcs" "x = tc_id tc" by auto
  then obtain i where i: "i < length tcs" "tc = tcs ! i" by (auto simp: in_set_conv_nth)
  define km where "km = enumerate 0 (function_matches content) ! i"
  from parse_tool_calls_Inr [OF assms] i
  have "make_tool_call loads dumps hash (fst km) (fst km) (snd km) = Inr tc"
    unfolding km_def by (simp add: list_all2_conv_all_nth)
  then have "tc_id tc = str_int (hash (id_key (strip (fst (snd km))) (fst km) (fst km)) mod 1000000000)"
    by (rule make_tool_call_Inr)
  moreover have "hash (id_key (strip (fst (snd km))) (fst km) (fst km)) mod 1000000000 \<in> {0..<1000000000}"
    by simp
  ultimately show "x \<in> str_int ` {0..<1000000000}" using tc(2) by blast
qed

lemma too_many_tool_calls:
  assumes "parse_tool_calls loads dumps hash content = Inr tcs"
    and "1000000000 < length (function_matches content)"
  shows "\<not> distinct (map tc_id tcs)"
proof
  assume d: "distinct (map tc_id tcs)"
  have "card (str_int ` {0..<1000000000}) \<le> card {0..<1000000000::int}"
    by (rule card_image_le) simp
  also have "\<dots> = 1000000000" by simp
  finally have c: "card (str_int ` {0..<1000000000}) \<le> 1000000000" .
  have "card (set (map tc_id tcs)) \<le> card (str_int ` {0..<1000000000})"
    by (rule card_mono) (simp_all only: tool_call_ids_range [OF assms(1)] finite_imageI
        finite_atLeastLessThan_int)
  from this c have "card (set (map tc_id tcs)) \<le> 1000000000"
    by (rule order_trans)
  with d have "length (map tc_id tcs) \<le> 1000000000"
    by (simp only: distinct_card)
  then have "length (function_matches content) \<le> 1000000000"
    by (simp only: length_map length_parse_tool_calls [OF assms(1)])
  with assms(2) show False by simp
qed

lemma parse_tool_calls_without_parameters:
  assumes "\<forall>m\<in>set (function_matches content). snd m = []"
  shows "\<exists>tcs. parse_tool_calls loads dumps hash content = Inr tcs"
proof -
  have "param_matches [] = []" by (simp add: param_matches_def)
  with assms
  have "\<forall>m\<in>set (function_matches content).
          \<exists>arguments. build_arguments loads (param_matches (snd m)) [] = Inr arguments"
    by simp
  then show ?thesis unfolding parse_tool_calls_def by (rule tool_call_loop_returns)
qed

lemma function_matches_empty_block:
  "function_matches (''<function=f></function>'' @ rest) = (''f'', []) # function_matches rest"
  by (simp add: function_matches_def match_block_def lit_def)

lemma function_matches_replicate:
  "function_matches (concat (replicate n ''<function=f></function>'')) = replicate n (''f'', [])"
proof (induction n)
  case 0
  show ?case by (simp add: function_matches_def)
next
  case (Suc n)
  have "function_matches (concat (replicate (Suc n) ''<function=f></function>''))
        = function_matches (''<function=f></function>'' @ concat (replicate n ''<function=f></function>''))"
    by (simp only: replicate_Suc concat.simps)
  also have "\<dots> = (''f'', []) # function_matches (concat (replicate n ''<function=f></function>''))"
    by (rule function_matches_empty_block)
  finally show ?case using Suc.IH by (simp only: replicate_Suc)
qed

text \<open>
  The strings that are hashed are pairwise different: each ends with an underscore and
  the decimal digits of its position.  The identifiers are their hash values modulo
  \<open>10^9\<close>, written in decimal.
\<close>

lemma digit_char_inj: "a < 10 \<Longrightarrow> b < 10 \<Longrightarrow> digit_char a = digit_char b \<Longrightarrow> a = b"
proof -
  assume a: "a < 10" and b: "b < 10" and e: "digit_char a = digit_char b"
  have d: "distinct ''0123456789''" by simp
  from a b e have "''0123456789'' ! a = ''0123456789'' ! b" by (simp add: digit_char_def)
  with d a b show "a = b" by (simp add: nth_eq_iff_index_eq)
qed

lemma digit_char_no_underscore: "digit_char d \<noteq> CHR ''_''"
proof -
  have "''0123456789'' ! (d mod 10) \<in> set ''0123456789''" by (rule nth_mem) simp
  moreover have "CHR ''_'' \<notin> set ''0123456789''" by simp
  ultimately show ?thesis unfolding digit_char_def by metis
qed

lemma str_nat_no_underscore: "CHR ''_'' \<notin> set (str_nat n)"
proof (induction n rule: str_nat.induct)
  case (1 n)
  show ?case
  proof (cases "n < 10")
    case True
    then show ?thesis using digit_char_no_underscore [of n]
      by (subst str_nat.simps) auto
  next
    case False
    with 1 show ?thesis using digit_char_no_underscore [of "n mod 10"]
      by (subst str_nat.simps) auto
  qed
qed

lemma str_nat_length: "\<not> n < 10 \<Longrightarrow> 2 \<le> length (str_nat n)"
proof -
  assume n: "\<not> n < 10"
  have "str_nat (n div 10) \<noteq> []" by (subst str_nat.simps) simp
  then have "1 \<le> length (str_nat (n div 10))" by (cases "str_nat (n div 10)") auto
  with n show ?thesis by (subst str_nat.simps) simp
qed

lemma str_nat_inj: "str_nat m = str_nat n \<Longrightarrow> m = n"
proof (induction m arbitrary: n rule: str_nat.induct)
  case (1 m)
  show ?case
  proof (cases "m < 10")
    case m: True
    show ?thesis
    proof (cases "n < 10")
      case True
      with m "1.prems" have "digit_char m = digit_char n"
        by (simp add: str_nat.simps [of m] str_nat.simps [of n])
      with m True show ?thesis by (rule digit_char_inj)
    next
      case False
      then have "2 \<le> length (str_nat n)" by (rule str_nat_length)
      moreover from m have "length (str_nat m) = 1" by (simp add: str_nat.simps [of m])
      ultimately show ?thesis using "1.prems" by simp
    qed
  next
    case m: False
    show ?thesis
    proof (cases "n < 10")
      case True
      then have "length (str_nat n) = 1" by (simp add: str_nat.simps [of n])
      moreover from m have "2 \<le> length (str_nat m)" by (rule str_nat_length)
      ultimately show ?thesis using "1.prems" by simp
    next
      case False
      with m "1.prems" have e: "str_nat (m div 10) = str_nat (n div 10)"
          "digit_char (m mod 10) = digit_char (n mod 10)"
        by (simp_all add: str_nat.simps [of m] str_nat.simps [of n])
      from "1.IH" [OF m e(1)] have "m div 10 = n div 10" .
      moreover from e(2) have "m mod 10 = n mod 10" by (intro digit_char_inj) simp_all
      ultimately show ?thesis by (metis div_mult_mod_eq)
    qed
  qed
qed

lemma split_at_last:
  assumes "c \<notin> set d1" "c \<notin> set d2" "a @ c # d1 = b @ c # d2"
  shows "d1 = d2"
proof -
  have "takeWhile (\<lambda>x. x \<noteq> c) (rev (a @ c # d1)) = rev d1" using assms(1)
    by (auto simp: takeWhile_tail)
  moreover have "takeWhile (\<lambda>x. x \<noteq> c) (rev (b @ c # d2)) = rev d2" using assms(2)
    by (auto simp: takeWhile_tail)
  ultimately have "rev d1 = rev d2" using assms(3) by simp
  then show ?thesis by simp
qed

lemma id_key_inj: "id_key f i i = id_key g j j \<Longrightarrow> i = j"
proof -
  assume "id_key f i i = id_key g j j"
  then have "(f @ ''_'' @ str_nat i) @ CHR ''_'' # str_nat i
           = (g @ ''_'' @ str_nat j) @ CHR ''_'' # str_nat j"
    by (simp add: id_key_def)
  with str_nat_no_underscore [of i] str_nat_no_underscore [of j]
  have "str_nat i = str_nat j" by (rule split_at_last)
  then show "i = j" by (rule str_nat_inj)
qed

lemma hashed_keys_distinct:
  "distinct (map (\<lambda>(k, m). id_key (strip (fst m)) k k) (enumerate n ms))"
proof -
  have "inj_on (\<lambda>(k, m). id_key (strip (fst m)) k k) (set (enumerate n ms))"
  proof (rule inj_onI)
    fix x y
    assume x: "x \<in> set (enumerate n ms)" and y: "y \<in> set (enumerate n ms)"
      and e: "(case x of (k, m) \<Rightarrow> id_key (strip (fst m)) k k)
            = (case y of (k, m) \<Rightarrow> id_key (strip (fst m)) k k)"
    then have "fst x = fst y" by (auto simp: case_prod_unfold dest: id_key_inj)
    moreover from x y have "snd x = ms ! (fst x - n)" "snd y = ms ! (fst y - n)"
      by (auto simp: in_set_enumerate_eq)
    ultimately show "x = y" by (simp add: prod_eq_iff)
  qed
  then show ?thesis by (simp add: distinct_map)
qed

subsection \<open>Finding a block\<close>

text \<open>
  The literals of the patterns begin with a character that does not occur again in them
  (\<open><\<close>, or the single \<open>>\<close>), so an occurrence cannot overlap a later one: where the text
  before a literal does not contain it, the literal is found exactly there.
\<close>

lemma lit_here: "lit l (l @ r) = Some r"
  by (simp add: lit_Some_iff)

lemma lit_not_yet:
  assumes "c \<notin> set l" and "\<not> sublist (c # l) (x # g)"
  shows "lit (c # l) (x # g @ (c # l) @ r) = None"
proof -
  have "\<not> prefix (c # l) (x # g @ (c # l) @ r)"
  proof
    assume p: "prefix (c # l) (x # g @ (c # l) @ r)"
    then have x: "x = c" and pl: "prefix l (g @ (c # l) @ r)" by auto
    from pl have d: "prefix l g \<or> (\<exists>us. l = g @ us \<and> prefix us ((c # l) @ r))"
      by (simp add: prefix_append)
    show False
    proof (cases "prefix l g")
      case True
      with x have "prefix (c # l) (x # g)" by simp
      with assms(2) show False using prefix_imp_sublist by blast
    next
      case False
      with d obtain us where us: "l = g @ us" "prefix us ((c # l) @ r)" by blast
      with False have "us \<noteq> []" by auto
      with us(2) have "hd us = c" by (cases us) auto
      with \<open>us \<noteq> []\<close> us(1) have "c \<in> set l" by (cases us) auto
      with assms(1) show False by blast
    qed
  qed
  then show ?thesis by (simp only: lit_None_iff simp_thms)
qed

lemma lazy_until_first:
  assumes "c \<notin> set l" and "\<not> sublist (c # l) g"
  shows "lazy_until (c # l) (g @ (c # l) @ r) = Some (g, r)"
  using assms(2)
proof (induction g)
  case Nil
  have "lazy_until (c # l) (c # (l @ r)) = Some ([], r)"
    using lit_here [of "c # l" r] by simp
  then show ?case by simp
next
  case (Cons x g)
  from Cons.prems have "\<not> sublist (c # l) g" by (simp add: sublist_Cons_right)
  then have "lazy_until (c # l) (g @ (c # l) @ r) = Some (g, r)" by (rule Cons.IH)
  moreover from assms(1) Cons.prems have "lit (c # l) (x # g @ (c # l) @ r) = None"
    by (rule lit_not_yet)
  ultimately show ?case by simp
qed

lemma lazy_until2_first:
  assumes "c1 \<notin> set l1" and "c2 \<notin> set l2"
    and "\<not> sublist (c1 # l1) g1" and "\<not> sublist (c2 # l2) g2"
  shows "lazy_until2 (c1 # l1) (c2 # l2) (g1 @ (c1 # l1) @ g2 @ (c2 # l2) @ r) = Some (g1, g2, r)"
  using assms(3)
proof (induction g1)
  case Nil
  have "lazy_until (c2 # l2) (g2 @ (c2 # l2) @ r) = Some (g2, r)"
    using assms(2,4) by (rule lazy_until_first)
  then have "Option.bind (lit (c1 # l1) ((c1 # l1) @ g2 @ (c2 # l2) @ r)) (lazy_until (c2 # l2))
             = Some (g2, r)"
    by (simp only: lit_here Option.bind.simps)
  then have "lazy_until2 (c1 # l1) (c2 # l2) (c1 # (l1 @ g2 @ (c2 # l2) @ r)) = Some ([], g2, r)"
    by simp
  then show ?case by simp
next
  case (Cons x g1)
  from Cons.prems have "\<not> sublist (c1 # l1) g1" by (simp add: sublist_Cons_right)
  then have "lazy_until2 (c1 # l1) (c2 # l2) (g1 @ (c1 # l1) @ g2 @ (c2 # l2) @ r) = Some (g1, g2, r)"
    by (rule Cons.IH)
  moreover from assms(1) Cons.prems
  have "lit (c1 # l1) (x # g1 @ (c1 # l1) @ (g2 @ (c2 # l2) @ r)) = None"
    by (rule lit_not_yet)
  ultimately show ?case by simp
qed

lemma re_findall_block_skip:
  assumes "c0 \<notin> set l0" and "\<not> sublist (c0 # l0) pre"
  shows "re_findall_block (c0 # l0) l1 l2 (pre @ (c0 # l0) @ rest)
         = re_findall_block (c0 # l0) l1 l2 ((c0 # l0) @ rest)"
  using assms(2)
proof (induction pre)
  case Nil
  show ?case by simp
next
  case (Cons x pre)
  from assms(1) Cons.prems have "lit (c0 # l0) (x # pre @ (c0 # l0) @ rest) = None"
    by (rule lit_not_yet)
  then have "match_block (c0 # l0) l1 l2 (x # pre @ (c0 # l0) @ rest) = None"
    by (simp add: match_block_def)
  moreover from Cons.prems have "\<not> sublist (c0 # l0) pre" by (simp add: sublist_Cons_right)
  ultimately show ?case using Cons.IH by simp
qed

lemma re_findall_block_step:
  assumes "c0 \<notin> set l0" "c1 \<notin> set l1" "c2 \<notin> set l2"
    and "\<not> sublist (c0 # l0) pre" "\<not> sublist (c1 # l1) g1" "\<not> sublist (c2 # l2) g2"
  shows "re_findall_block (c0 # l0) (c1 # l1) (c2 # l2)
           (pre @ (c0 # l0) @ g1 @ (c1 # l1) @ g2 @ (c2 # l2) @ r)
         = (g1, g2) # re_findall_block (c0 # l0) (c1 # l1) (c2 # l2) r"
proof -
  let ?rest = "g1 @ (c1 # l1) @ g2 @ (c2 # l2) @ r"
  have "match_block (c0 # l0) (c1 # l1) (c2 # l2) ((c0 # l0) @ ?rest) = Some (g1, g2, r)"
    using lazy_until2_first [OF assms(2,3,5,6)]
    by (simp only: match_block_def lit_here Option.bind.simps)
  then have "re_findall_block (c0 # l0) (c1 # l1) (c2 # l2) ((c0 # l0) @ ?rest)
        = (g1, g2) # re_findall_block (c0 # l0) (c1 # l1) (c2 # l2) r"
    by simp
  with re_findall_block_skip [OF assms(1,4), of "c1 # l1" "c2 # l2" ?rest]
  show ?thesis by simp
qed

lemma sublist_single: "sublist [c] xs \<longleftrightarrow> c \<in> set xs"
proof
  assume "sublist [c] xs"
  then show "c \<in> set xs" by (auto simp: sublist_def)
next
  assume "c \<in> set xs"
  then obtain ys zs where "xs = ys @ c # zs" by (auto simp: in_set_conv_decomp)
  then have "xs = ys @ [c] @ zs" by simp
  then show "sublist [c] xs" unfolding sublist_def by blast
qed

lemma param_matches_step:
  assumes "well_formed_parameter p"
  shows "param_matches (parameter_block p @ r) = (param_name p, param_text p) # param_matches r"
proof -
  obtain sep name v where p: "p = (sep, name, v)" by (cases p)
  with assms have w: "\<not> sublist ''<parameter='' sep" "\<not> sublist ''>'' name"
      "\<not> sublist ''</parameter>'' v"
    by (simp_all only: well_formed_parameter_def prod.case sublist_single simp_thms)
  have c: "CHR ''<'' \<notin> set ''parameter=''" "CHR ''>'' \<notin> set []" "CHR ''<'' \<notin> set ''/parameter>''"
    by simp_all
  have "re_findall_block ''<parameter='' ''>'' ''</parameter>''
          (sep @ ''<parameter='' @ name @ ''>'' @ v @ ''</parameter>'' @ r)
        = (name, v) # re_findall_block ''<parameter='' ''>'' ''</parameter>'' r"
    using c w by (rule re_findall_block_step)
  with p show ?thesis
    by (simp only: param_matches_def parameter_block_def param_name_def param_text_def
        prod.case append_assoc)
qed

lemma param_matches_body:
  assumes "list_all well_formed_parameter ps" and "\<not> sublist ''<parameter='' closing"
  shows "param_matches (function_body ps closing) = map (\<lambda>p. (param_name p, param_text p)) ps"
  using assms(1)
proof (induction ps)
  case Nil
  from assms(2) show ?case
    by (simp add: function_body_def param_matches_def re_findall_block_Nil)
next
  case (Cons p ps)
  then have "well_formed_parameter p" and "list_all well_formed_parameter ps" by simp_all
  with Cons.IH param_matches_step [of p "function_body ps closing"]
  show ?case by (simp add: function_body_def)
qed

lemma function_matches_block:
  assumes "CHR ''>'' \<notin> set name" and "\<not> sublist ''</function>'' body"
    and "\<not> sublist ''<function='' before" and "\<not> sublist ''<function='' after"
  shows "function_matches (before @ function_block name body @ after) = [(name, body)]"
proof -
  from assms(1) have n: "\<not> sublist ''>'' name" by (simp only: sublist_single simp_thms)
  have c: "CHR ''<'' \<notin> set ''function=''" "CHR ''>'' \<notin> set []" "CHR ''<'' \<notin> set ''/function>''"
    by simp_all
  have "re_findall_block ''<function='' ''>'' ''</function>''
          (before @ ''<function='' @ name @ ''>'' @ body @ ''</function>'' @ after)
        = (name, body) # re_findall_block ''<function='' ''>'' ''</function>'' after"
    using c assms(3) n assms(2) by (rule re_findall_block_step)
  also from assms(4) have "re_findall_block ''<function='' ''>'' ''</function>'' after = []"
    by (rule re_findall_block_Nil)
  finally show ?thesis
    by (simp only: function_matches_def function_block_def append_assoc)
qed

subsection \<open>The arguments of a block\<close>









lemma build_arguments_raises:
  "build_arguments loads pms d = Inl e \<Longrightarrow>
   \<exists>pm\<in>set pms. decode_value loads (strip (snd pm)) = Inl e"
proof (induction pms arbitrary: d)
  case Nil
  then show ?case by simp
next
  case (Cons pm pms)
  obtain pname pvalue where pm: "pm = (pname, pvalue)" by (cases pm)
  show ?case
  proof (cases "decode_value loads (strip pvalue)")
    case (Inl e')
    with Cons.prems pm show ?thesis by simp
  next
    case (Inr stored)
    with Cons.prems pm have "build_arguments loads pms (dict_set (strip pname) stored d) = Inl e"
      by simp
    from Cons.IH [OF this] show ?thesis by auto
  qed
qed



lemma decode_value_cases:
  "decode_value loads v =
     (if startswith v ''['' \<or> startswith v ''{''
      then (case loads v of
              Inr parsed_value \<Rightarrow> Inr (PJson parsed_value)
            | Inl e \<Rightarrow> if e = JSONDecodeError then Inr (PStr v) else Inl e)
      else Inr (PStr v))"
  by (simp add: decode_value_def try_decode_def split: sum.splits)

lemma decode_value_raises:
  "decode_value loads v = Inl e \<Longrightarrow>
   e \<noteq> JSONDecodeError \<and> loads v = Inl e \<and> (startswith v ''['' \<or> startswith v ''{'')"
  by (auto simp: decode_value_cases split: if_splits sum.splits)

lemma parse_tool_calls_raises:
  assumes "parse_tool_calls loads dumps hash content = Inl e"
  shows "e \<noteq> JSONDecodeError \<and> (\<exists>v. loads v = Inl e)"
proof -
  have "tool_call_loop loads dumps hash i ms tcs = Inl e \<Longrightarrow>
        \<exists>m :: string \<times> string. build_arguments loads (param_matches (snd m)) [] = Inl e"
    for i ms tcs
  proof (induction ms arbitrary: i tcs)
    case Nil
    then show ?case by simp
  next
    case (Cons m ms)
    show ?case
    proof (cases "make_tool_call loads dumps hash i (length tcs) m")
      case (Inl e')
      with Cons.prems have "e' = e" by simp
      with Inl have "build_arguments loads (param_matches (snd m)) [] = Inl e"
        by (auto simp: make_tool_call_def Let_def split: sum.splits)
      then show ?thesis by blast
    next
      case (Inr tc)
      with Cons.prems have "tool_call_loop loads dumps hash (Suc i) ms (tcs @ [tc]) = Inl e"
        by simp
      then show ?thesis by (rule Cons.IH)
    qed
  qed
  with assms obtain m :: "string \<times> string"
    where "build_arguments loads (param_matches (snd m)) [] = Inl e"
    unfolding parse_tool_calls_def by blast
  then obtain pm where "decode_value loads (strip (snd pm)) = Inl e"
    by (auto dest: build_arguments_raises)
  then show ?thesis by (auto dest: decode_value_raises)
qed

lemma parse_single_block:
  assumes "CHR ''>'' \<notin> set name" and "\<not> sublist ''</function>'' body"
    and "\<not> sublist ''<function='' before" and "\<not> sublist ''<function='' after"
  shows "parse_tool_calls loads dumps hash (before @ function_block name body @ after)
         = (case build_arguments loads (param_matches body) [] of
              Inl e \<Rightarrow> Inl e
            | Inr arguments \<Rightarrow>
                Inr [\<lparr>tc_id = str_int (hash (id_key (strip name) 0 0) mod 1000000000),
                      tc_type = ''function'',
                      tc_function = \<lparr>fn_name = strip name, fn_arguments = dumps arguments\<rparr>\<rparr>])"
proof -
  have "function_matches (before @ function_block name body @ after) = [(name, body)]"
    using assms by (rule function_matches_block)
  then show ?thesis
    by (simp add: parse_tool_calls_def make_tool_call_def Let_def split: sum.splits)
qed


lemma scenario_array:
  "parse_tool_calls loads dumps hash
     ''<tool_call><function=f><parameter=x>[1,2,3]</parameter></function></tool_call>''
   = (case decode_value loads ''[1,2,3]'' of
        Inl e \<Rightarrow> Inl e
      | Inr stored \<Rightarrow>
          Inr [\<lparr>tc_id = str_int (hash ''f_0_0'' mod 1000000000),
                tc_type = ''function'',
                tc_function = \<lparr>fn_name = ''f'', fn_arguments = dumps [(''x'', stored)]\<rparr>\<rparr>])"
proof -
  have m: "function_matches
             ''<tool_call><function=f><parameter=x>[1,2,3]</parameter></function></tool_call>''
           = [(''f'', ''<parameter=x>[1,2,3]</parameter>'')]"
    by code_simp
  have p: "param_matches ''<parameter=x>[1,2,3]</parameter>'' = [(''x'', ''[1,2,3]'')]"
    by code_simp
  have s: "strip ''f'' = ''f''" "strip ''x'' = ''x''" "strip ''[1,2,3]'' = ''[1,2,3]''"
    by code_simp+
  have k: "str_nat 0 = ''0''" by code_simp
  show ?thesis
    by (simp add: parse_tool_calls_def make_tool_call_def Let_def id_key_def m p s k
        split: sum.splits)
qed

subsection \<open>The length of a cleaned text\<close>

text \<open>No step of \<open>clean_content\<close> makes the text longer, and a step that deletes makes it shorter.\<close>

lemma re_sub_span_length: "length (re_sub_span l0 l1 s) \<le> length s"
proof (induction l0 l1 s rule: re_sub_span.induct)
  case (1 l0 l1)
  show ?case by simp
next
  case (2 l0 l1 c cs)
  show ?case
  proof (cases "l0 = []")
    case True
    then show ?thesis by simp
  next
    case False
    show ?thesis
    proof (cases "match_span l0 l1 (c # cs)")
      case None
      with False 2 show ?thesis by simp
    next
      case (Some r)
      with False have "length r < length (c # cs)" by (intro match_span_length)
      moreover from False Some 2 have "length (re_sub_span l0 l1 r) \<le> length r" by simp
      ultimately show ?thesis using False Some by simp
    qed
  qed
qed

lemma re_sub_span_shorter:
  "re_search_span l0 l1 s \<Longrightarrow> l0 \<noteq> [] \<Longrightarrow> length (re_sub_span l0 l1 s) < length s"
proof (induction s)
  case Nil
  then have "match_span l0 l1 [] \<noteq> None" by simp
  then obtain r where "match_span l0 l1 [] = Some r" by blast
  then have "length r < length ([] :: string)" using Nil.prems(2) by (rule match_span_length)
  then show ?case by simp
next
  case (Cons c cs)
  show ?case
  proof (cases "match_span l0 l1 (c # cs)")
    case None
    with Cons show ?thesis by simp
  next
    case (Some r)
    with Cons.prems(2) have "length r < length (c # cs)" by (intro match_span_length)
    moreover have "length (re_sub_span l0 l1 r) \<le> length r" by (rule re_sub_span_length)
    ultimately show ?thesis using Cons.prems(2) Some by simp
  qed
qed

lemma replace_empty_length: "length (replace_empty old s) \<le> length s"
proof (induction old s rule: replace_empty.induct)
  case (1 old)
  show ?case by simp
next
  case (2 old c cs)
  then show ?case by (auto simp: le_Suc_eq dest: le_trans [OF _ diff_le_self])
qed

lemma replace_empty_shorter:
  "sublist old s \<Longrightarrow> old \<noteq> [] \<Longrightarrow> length (replace_empty old s) < length s"
proof (induction s)
  case Nil
  then show ?case by simp
next
  case (Cons c cs)
  show ?case
  proof (cases "startswith (c # cs) old")
    case True
    have "length (replace_empty old (drop (length old) (c # cs))) \<le> length (drop (length old) (c # cs))"
      by (rule replace_empty_length)
    also from Cons.prems(2) have "\<dots> < length (c # cs)" by (cases old) auto
    finally show ?thesis using True Cons.prems(2) by simp
  next
    case False
    with Cons.prems have "sublist old cs"
      by (simp add: startswith_iff sublist_Cons_right)
    with Cons.IH Cons.prems(2) False show ?thesis by simp
  qed
qed

lemma strip_length: "length (strip s) \<le> length s"
proof -
  have "length (dropWhile is_space (rev (dropWhile is_space s))) \<le> length (rev (dropWhile is_space s))"
    by (rule length_dropWhile_le)
  also have "\<dots> \<le> length s" by (simp add: length_dropWhile_le)
  finally show ?thesis by (simp add: strip_def)
qed

lemma strip_lone_open_length: "length (strip_lone_open s) \<le> length s"
  by (simp add: strip_lone_open_def replace_empty_length)

lemma strip_lone_close_length: "length (strip_lone_close s) \<le> length s"
  by (simp add: strip_lone_close_def replace_empty_length)

lemma clean_content_fixed_only_if:
  assumes "clean_content y = y"
  shows "\<not> re_search_span ''<tool_call>'' ''</tool_call>'' y
       \<and> \<not> re_search_span ''<function='' ''</function>'' y
       \<and> (sublist ''<tool_call>'' y \<longleftrightarrow> sublist ''</tool_call>'' y)"
proof -
  let ?a = "re_sub_span ''<tool_call>'' ''</tool_call>'' y"
  let ?b = "re_sub_span ''<function='' ''</function>'' ?a"
  let ?c = "strip_lone_open ?b"
  let ?d = "strip_lone_close ?c"
  have l: "length ?a \<le> length y" "length ?b \<le> length ?a" "length ?c \<le> length ?b"
      "length ?d \<le> length ?c" "length (strip ?d) \<le> length ?d"
    by (rule re_sub_span_length re_sub_span_length strip_lone_open_length
        strip_lone_close_length strip_length)+
  from assms have "length (strip ?d) = length y"
    by (simp only: clean_content_def removed_def)
  with l have e: "length ?a = length y" "length ?b = length ?a" "length ?c = length ?b"
      "length ?d = length ?c"
    by linarith+
  have 1: "\<not> re_search_span ''<tool_call>'' ''</tool_call>'' y"
  proof
    assume "re_search_span ''<tool_call>'' ''</tool_call>'' y"
    then have "length ?a < length y" by (rule re_sub_span_shorter) simp
    with e(1) show False by simp
  qed
  then have a: "?a = y" by (rule re_sub_span_no_match)
  have 2: "\<not> re_search_span ''<function='' ''</function>'' y"
  proof
    assume "re_search_span ''<function='' ''</function>'' y"
    then have "length (re_sub_span ''<function='' ''</function>'' y) < length y"
      by (rule re_sub_span_shorter) simp
    with e(2) a show False by simp
  qed
  then have "re_sub_span ''<function='' ''</function>'' y = y" by (rule re_sub_span_no_match)
  with a have b: "?b = y" by (simp only:)
  have 3: "\<not> (sublist ''<tool_call>'' y \<and> \<not> sublist ''</tool_call>'' y)"
  proof
    assume h: "sublist ''<tool_call>'' y \<and> \<not> sublist ''</tool_call>'' y"
    then have "strip_lone_open y = replace_empty ''<tool_call>'' y"
      by (simp only: strip_lone_open_def contains_iff simp_thms if_True)
    moreover from h have "length (replace_empty ''<tool_call>'' y) < length y"
      by (intro replace_empty_shorter) simp_all
    ultimately show False using e(3) b by simp
  qed
  then have c: "?c = y" using b by (simp only: strip_lone_open_def contains_iff if_False)
  have 4: "\<not> (sublist ''</tool_call>'' y \<and> \<not> sublist ''<tool_call>'' y)"
  proof
    assume h: "sublist ''</tool_call>'' y \<and> \<not> sublist ''<tool_call>'' y"
    then have "strip_lone_close y = replace_empty ''</tool_call>'' y"
      by (simp only: strip_lone_close_def contains_iff simp_thms if_True)
    moreover from h have "length (replace_empty ''</tool_call>'' y) < length y"
      by (intro replace_empty_shorter) simp_all
    ultimately show False using e(4) c by simp
  qed
  from 1 2 3 4 show ?thesis by blast
qed


subsection \<open>Prefixes of a text and the completeness test\<close>









lemma is_complete_closing_before_opening:
  "is_complete_tool_call (a @ ''</tool_call>'' @ b @ ''<tool_call>'' @ c)"
proof -
  have "a @ ''</tool_call>'' @ b @ ''<tool_call>'' @ c = (a @ ''</tool_call>'' @ b) @ ''<tool_call>'' @ c"
    by simp
  then have o: "sublist ''<tool_call>'' (a @ ''</tool_call>'' @ b @ ''<tool_call>'' @ c)"
    unfolding sublist_def by blast
  have "sublist ''</tool_call>'' (a @ ''</tool_call>'' @ (b @ ''<tool_call>'' @ c))"
    unfolding sublist_def by blast
  with o show ?thesis by (simp only: is_complete_wrapped_iff_closed_aux)
qed


subsection \<open>A value on which \<open>json.loads\<close> raises\<close>

text \<open>
  A function block \<open>f\<close> with the single parameter \<open>x\<close>, whose value has neither \<open><\<close>
  nor the letter \<open>f\<close>: the parser returns one tool call, or raises what the decoding of
  the value raises.
\<close>

lemma sublist_foreign: "c \<in> set t \<Longrightarrow> c \<notin> set s \<Longrightarrow> \<not> sublist t s"
  using set_mono_sublist by blast

lemma parse_single_parameter:
  assumes "CHR ''<'' \<notin> set v" and "CHR ''f'' \<notin> set v"
  shows "parse_tool_calls loads dumps hash
           (''<function=f><parameter=x>'' @ v @ ''</parameter></function>'')
         = (case decode_value loads (strip v) of
              Inl e \<Rightarrow> Inl e
            | Inr stored \<Rightarrow>
                Inr [\<lparr>tc_id = str_int (hash ''f_0_0'' mod 1000000000),
                      tc_type = ''function'',
                      tc_function = \<lparr>fn_name = ''f'', fn_arguments = dumps [(''x'', stored)]\<rparr>\<rparr>])"
proof -
  let ?body = "''<parameter=x>'' @ v @ ''</parameter>''"
  have "CHR ''<'' \<in> set ''</parameter>''" by simp
  then have "\<not> sublist ''</parameter>'' v" using assms(1) by (rule sublist_foreign)
  then have "list_all well_formed_parameter [([], ''x'', v)]"
    by (simp add: well_formed_parameter_def)
  moreover have "\<not> sublist ''<parameter='' []" by simp
  ultimately have "param_matches (function_body [([], ''x'', v)] [])
                   = map (\<lambda>p. (param_name p, param_text p)) [([], ''x'', v)]"
    by (rule param_matches_body)
  then have pm: "param_matches ?body = [(''x'', v)]"
    by (simp add: function_body_def parameter_block_def param_name_def param_text_def)
  have "CHR ''f'' \<in> set ''</function>''" by simp
  moreover from assms(2) have "CHR ''f'' \<notin> set ?body" by simp
  ultimately have nb: "\<not> sublist ''</function>'' ?body" by (rule sublist_foreign)
  have n: "CHR ''>'' \<notin> set ''f''" by simp
  have e: "\<not> sublist ''<function='' []" by simp
  have s: "strip ''f'' = ''f''" "strip ''x'' = ''x''" by code_simp+
  have k: "id_key ''f'' 0 0 = ''f_0_0''" by code_simp
  have t: "[] @ function_block ''f'' ?body @ []
           = ''<function=f><parameter=x>'' @ v @ ''</parameter></function>''"
    by (simp add: function_block_def)
  have b: "build_arguments loads [(''x'', v)] []
           = (case decode_value loads (strip v) of
                Inl e \<Rightarrow> Inl e | Inr stored \<Rightarrow> Inr [(''x'', stored)])"
    by (simp add: s split: sum.splits)
  have "parse_tool_calls loads dumps hash ([] @ function_block ''f'' ?body @ [])
         = (case build_arguments loads (param_matches ?body) [] of
              Inl e \<Rightarrow> Inl e
            | Inr arguments \<Rightarrow>
                Inr [\<lparr>tc_id = str_int (hash (id_key (strip ''f'') 0 0) mod 1000000000),
                      tc_type = ''function'',
                      tc_function = \<lparr>fn_name = strip ''f'', fn_arguments = dumps arguments\<rparr>\<rparr>])"
    using n nb e e by (rule parse_single_block)
  then show ?thesis
    unfolding t pm b s k by (simp split: sum.splits)
qed

lemma decode_value_json_like:
  "prefix ''['' v \<Longrightarrow>
   decode_value loads v
   = (case loads v of
        Inl e \<Rightarrow> if e = JSONDecodeError then Inr (PStr v) else Inl e
      | Inr parsed_value \<Rightarrow> Inr (PJson parsed_value))"
  by (simp add: decode_value_cases startswith_iff split: sum.splits)

lemma parse_long_integer:
  "parse_tool_calls loads dumps hash
     (''<function=f><parameter=x>'' @ (''['' @ replicate n (CHR ''1'') @ '']'')
        @ ''</parameter></function>'')
   = (case loads (''['' @ replicate n (CHR ''1'') @ '']'') of
        Inl e \<Rightarrow>
          if e = JSONDecodeError
          then Inr [\<lparr>tc_id = str_int (hash ''f_0_0'' mod 1000000000),
                     tc_type = ''function'',
                     tc_function = \<lparr>fn_name = ''f'',
                       fn_arguments =
                         dumps [(''x'', PStr (''['' @ replicate n (CHR ''1'') @ '']''))]\<rparr>\<rparr>]
          else Inl e
      | Inr parsed_value \<Rightarrow>
          Inr [\<lparr>tc_id = str_int (hash ''f_0_0'' mod 1000000000),
                tc_type = ''function'',
                tc_function = \<lparr>fn_name = ''f'',
                  fn_arguments = dumps [(''x'', PJson parsed_value)]\<rparr>\<rparr>])"
proof -
  let ?v = "''['' @ replicate n (CHR ''1'') @ '']''"
  have c: "CHR ''<'' \<notin> set ?v" "CHR ''f'' \<notin> set ?v" by auto
  have "\<not> is_space (hd ?v) \<and> \<not> is_space (last ?v)" by (simp add: is_space_def)
  then have s: "strip ?v = ?v" by (intro strip_fixed disjI2)
  have p: "prefix ''['' ?v" by simp
  show ?thesis
    unfolding parse_single_parameter [OF c] s decode_value_json_like [OF p]
    by (simp split: sum.splits)
qed

lemma parse_deep_nesting:
  "parse_tool_calls loads dumps hash
     (''<function=f><parameter=x>'' @ replicate (Suc n) (CHR ''['') @ ''</parameter></function>'')
   = (case loads (replicate (Suc n) (CHR ''['')) of
        Inl e \<Rightarrow>
          if e = JSONDecodeError
          then Inr [\<lparr>tc_id = str_int (hash ''f_0_0'' mod 1000000000),
                     tc_type = ''function'',
                     tc_function = \<lparr>fn_name = ''f'',
                       fn_arguments = dumps [(''x'', PStr (replicate (Suc n) (CHR ''['')))]\<rparr>\<rparr>]
          else Inl e
      | Inr parsed_value \<Rightarrow>
          Inr [\<lparr>tc_id = str_int (hash ''f_0_0'' mod 1000000000),
                tc_type = ''function'',
                tc_function = \<lparr>fn_name = ''f'',
                  fn_arguments = dumps [(''x'', PJson parsed_value)]\<rparr>\<rparr>])"
proof -
  let ?v = "replicate (Suc n) (CHR ''['')"
  have c: "CHR ''<'' \<notin> set ?v" "CHR ''f'' \<notin> set ?v" by auto
  have "hd ?v = CHR ''[''" by simp
  moreover have "last ?v = CHR ''[''" by (induction n) simp_all
  ultimately have "\<not> is_space (hd ?v) \<and> \<not> is_space (last ?v)" by (simp add: is_space_def)
  then have s: "strip ?v = ?v" by (intro strip_fixed disjI2)
  have p: "prefix ''['' ?v" by simp
  show ?thesis
    unfolding parse_single_parameter [OF c] s decode_value_json_like [OF p]
    by (simp split: sum.splits)
qed

lemma parse_tool_calls_no_decode_error:
  "parse_tool_calls loads dumps hash content \<noteq> Inl JSONDecodeError"
  using parse_tool_calls_raises [of loads dumps hash content JSONDecodeError] by blast


section \<open>The claims\<close>

text \<open>
  C1.  The claim says that a content with the opening wrapper tag \<open><tool_call>\<close> is
  complete if and only if the closing tag that matches it is present, so that a wrapper
  that is never closed is never complete.  \<open>is_complete_tool_call\<close> asks whether
  \<open></tool_call>\<close> occurs anywhere in the content, also before the opening tag: every text
  in which a closing tag stands before an opening tag is complete, whatever follows the
  opening tag.  In \<open><tool_call><function=f></function></tool_call><tool_call><function=g>\<close>
  the second wrapper is never closed (the wrapper pattern does not match from it) and
  \<open>is_complete_tool_call\<close> holds; \<open>clean_content\<close>, on the same text, treats that wrapper
  as a lone opening tag and deletes it.  The same happens in
  \<open></tool_call><tool_call><function=f>\<close>, where no wrapper is closed at all.  The text
  \<open><tool_call><function=f></function>\<close> of the claim is not complete.
\<close>

theorem is_complete_with_unclosed_wrapper:
  "is_complete_tool_call (a @ ''</tool_call>'' @ b @ ''<tool_call>'' @ c)
   \<and> is_complete_tool_call ''<tool_call><function=f></function></tool_call><tool_call><function=g>''
   \<and> \<not> re_search_span ''<tool_call>'' ''</tool_call>'' ''<tool_call><function=g>''
   \<and> clean_content ''<tool_call><function=f></function></tool_call><tool_call><function=g>''
       = ''<function=g>''
   \<and> is_complete_tool_call ''</tool_call><tool_call><function=f>''
   \<and> \<not> re_search_span ''<tool_call>'' ''</tool_call>'' ''</tool_call><tool_call><function=f>''
   \<and> is_complete_tool_call ''<tool_call><function=f></function>'' = False"
proof -
  note 1 = is_complete_closing_before_opening [of a b c]
  have 2: "is_complete_tool_call ''<tool_call><function=f></function></tool_call><tool_call><function=g>''"
    by code_simp
  have 3: "\<not> re_search_span ''<tool_call>'' ''</tool_call>'' ''<tool_call><function=g>''"
    by code_simp
  have 4: "clean_content ''<tool_call><function=f></function></tool_call><tool_call><function=g>''
       = ''<function=g>''"
    by code_simp
  have 5: "is_complete_tool_call ''</tool_call><tool_call><function=f>''"
    by code_simp
  have 6: "\<not> re_search_span ''<tool_call>'' ''</tool_call>'' ''</tool_call><tool_call><function=f>''"
    by code_simp
  have 7: "is_complete_tool_call ''<tool_call><function=f></function>'' = False"
    by code_simp
  from 1 2 3 4 5 6 7 show ?thesis by (intro conjI)
qed

theorem is_complete_with_unclosed_wrapper_witness:
  "is_complete_tool_call ''ok</tool_call> and <tool_call><function=f><parameter=x>1''"
proof -
  have "''ok'' @ ''</tool_call>'' @ '' and '' @ ''<tool_call>'' @ ''<function=f><parameter=x>1''
        = ''ok</tool_call> and <tool_call><function=f><parameter=x>1''"
    by simp
  with is_complete_with_unclosed_wrapper [of "''ok''" "'' and ''" "''<function=f><parameter=x>1''"]
  show ?thesis by (simp only: simp_thms)
qed






text \<open>
  C4.  The claim says that a content without any markup tag has
  \<open>has_partial_tool_call\<close> false, \<open>is_complete_tool_call\<close> false, no parsed tool call, and
  is cleaned to its trimmed self.  The text \<open>a <\<close> contains none of the six markers, and
  \<open>has_partial_tool_call\<close> holds of it: its last character is the first character of a
  marker, which is what the second loop of the function looks for.
\<close>

theorem no_markup_counterexample:
  "list_all (\<lambda>m. \<not> contains ''a <'' m) markers \<and> has_partial_tool_call ''a <''"
  by code_simp

text \<open>
  C4, as amended.  For every content in which none of the six markers occurs,
  \<open>is_complete_tool_call\<close> is false, \<open>parse_tool_calls\<close> returns the empty list and
  \<open>clean_content\<close> returns the trimmed content; \<open>has_partial_tool_call\<close> holds exactly
  when the content ends with a non-empty proper prefix of a marker.
\<close>

theorem no_markup_results:
  assumes "\<forall>m\<in>set markers. \<not> sublist m content"
  shows "is_complete_tool_call content = False
       \<and> parse_tool_calls loads dumps hash content = Inr []
       \<and> clean_content content = strip content
       \<and> (has_partial_tool_call content
            \<longleftrightarrow> (\<exists>m\<in>set markers. \<exists>p. p \<noteq> [] \<and> strict_prefix p m \<and> suffix p content))"
proof -
  have "''<tool_call>'' \<in> set markers" "''</tool_call>'' \<in> set markers"
       "''<function='' \<in> set markers"
    by (simp_all add: markers_def)
  with assms have n: "\<not> sublist ''<tool_call>'' content" "\<not> sublist ''</tool_call>'' content"
       "\<not> sublist ''<function='' content"
    by blast+
  from n(3) have "\<not> re_search_span ''<function='' ''</function>'' content"
    using re_search_span_sublist by blast
  with n(1) have 1: "is_complete_tool_call content = False"
    by (simp only: is_complete_tool_call_def contains_iff if_False)
  from n(3) have 2: "parse_tool_calls loads dumps hash content = Inr []"
    by (rule parse_tool_calls_Nil)
  from n(1) n(3) have "removed content = content" by (rule removed_id)
  moreover from n(1) n(2) have "strip_lone_close (strip_lone_open content) = content"
    by (intro strip_lone_fixed) blast+
  ultimately have 3: "clean_content content = strip content"
    by (simp only: clean_content_def)
  from assms have "\<not> list_ex (\<lambda>marker. contains content marker) markers"
    by (simp only: list_ex_iff contains_iff) blast
  then have 4: "has_partial_tool_call content
       \<longleftrightarrow> (\<exists>m\<in>set markers. \<exists>p. p \<noteq> [] \<and> strict_prefix p m \<and> suffix p content)"
    by (simp only: has_partial_tool_call_def if_False trailing_marker_prefix_iff)
  from 1 2 3 4 show ?thesis by (simp only: simp_thms)
qed

theorem no_markup_results_witness:
  "is_complete_tool_call ''hi < '' = False
   \<and> parse_tool_calls (\<lambda>s. Inl JSONDecodeError :: py_exception + unit) (\<lambda>d. []) (\<lambda>s. 0) ''hi < '' = Inr []
   \<and> clean_content ''hi < '' = ''hi <''
   \<and> has_partial_tool_call ''hi < '' = False"
proof -
  have "list_all (\<lambda>m. \<not> contains ''hi < '' m) markers" by code_simp
  then have h: "\<forall>m\<in>set markers. \<not> sublist m ''hi < ''"
    by (simp only: list_all_iff contains_iff)
  have s: "strip ''hi < '' = ''hi <''" by code_simp
  have p: "has_partial_tool_call ''hi < '' = False" by code_simp
  from no_markup_results [OF h, of "\<lambda>s. Inl JSONDecodeError :: py_exception + unit" "\<lambda>d. []" "\<lambda>s. 0"] s p
  show ?thesis by (simp only: simp_thms)
qed

text \<open>
  C5.  The claim says that \<open>clean_content\<close> is idempotent.  Deleting text can bring the
  two halves of a tag together: from \<open><tool_<tool_call>call>\<close> the lone opening tag in
  the middle is deleted and \<open><tool_call>\<close> is returned, which a second call deletes.
\<close>

theorem clean_content_idempotent_counterexample:
  "clean_content ''<tool_<tool_call>call>'' = ''<tool_call>''
   \<and> clean_content (clean_content ''<tool_<tool_call>call>'') = []"
  by code_simp

text \<open>
  C5, as amended.  \<open>clean_content (clean_content x) = clean_content x\<close> holds exactly
  for the \<open>x\<close> whose cleaned text has nothing left to remove: no span
  \<open><tool_call>...</tool_call>\<close>, no span \<open><function=...</function>\<close>, and either both
  wrapper tags or neither.
\<close>

theorem clean_content_idempotent_iff:
  "clean_content (clean_content x) = clean_content x
   \<longleftrightarrow> (\<not> re_search_span ''<tool_call>'' ''</tool_call>'' (clean_content x)
        \<and> \<not> re_search_span ''<function='' ''</function>'' (clean_content x)
        \<and> (sublist ''<tool_call>'' (clean_content x) \<longleftrightarrow> sublist ''</tool_call>'' (clean_content x)))"
proof
  assume "clean_content (clean_content x) = clean_content x"
  then show "\<not> re_search_span ''<tool_call>'' ''</tool_call>'' (clean_content x)
        \<and> \<not> re_search_span ''<function='' ''</function>'' (clean_content x)
        \<and> (sublist ''<tool_call>'' (clean_content x) \<longleftrightarrow> sublist ''</tool_call>'' (clean_content x))"
    by (rule clean_content_fixed_only_if)
next
  assume "\<not> re_search_span ''<tool_call>'' ''</tool_call>'' (clean_content x)
        \<and> \<not> re_search_span ''<function='' ''</function>'' (clean_content x)
        \<and> (sublist ''<tool_call>'' (clean_content x) \<longleftrightarrow> sublist ''</tool_call>'' (clean_content x))"
  then have "clean_content (clean_content x) = strip (clean_content x)"
    by (intro clean_content_fixed) blast+
  also have "\<dots> = clean_content x"
    by (simp only: clean_content_def strip_strip)
  finally show "clean_content (clean_content x) = clean_content x" .
qed

theorem clean_content_idempotent_iff_witness:
  "clean_content '' see <tool_call><function=f></function></tool_call> below '' = ''see  below''
   \<and> clean_content (clean_content '' see <tool_call><function=f></function></tool_call> below '')
       = ''see  below''
   \<and> re_search_span ''<tool_call>'' ''</tool_call>'' (clean_content ''<tool_<function=f></function>call>x</tool_call>'')
   \<and> clean_content (clean_content ''<tool_<function=f></function>call>x</tool_call>'')
       \<noteq> clean_content ''<tool_<function=f></function>call>x</tool_call>''"
proof -
  let ?x = "'' see <tool_call><function=f></function></tool_call> below ''"
  let ?z = "''<tool_<function=f></function>call>x</tool_call>''"
  have c: "clean_content ?x = ''see  below''" by code_simp
  have 1: "\<not> re_search_span ''<tool_call>'' ''</tool_call>'' (clean_content ?x)" by code_simp
  have 2: "\<not> re_search_span ''<function='' ''</function>'' (clean_content ?x)" by code_simp
  have 3: "sublist ''<tool_call>'' (clean_content ?x) \<longleftrightarrow> sublist ''</tool_call>'' (clean_content ?x)"
    by code_simp
  from clean_content_idempotent_iff [of ?x] 1 2 3
  have "clean_content (clean_content ?x) = clean_content ?x" by blast
  with c have i: "clean_content (clean_content ?x) = ''see  below''" by (simp only:)
  have r: "re_search_span ''<tool_call>'' ''</tool_call>'' (clean_content ?z)" by code_simp
  with clean_content_idempotent_iff [of ?z]
  have n: "clean_content (clean_content ?z) \<noteq> clean_content ?z" by blast
  from c i r n show ?thesis by (intro conjI)
qed

text \<open>
  C6.  The claim says that \<open>parse_tool_calls\<close> never raises: a value that looks like JSON
  and cannot be decoded is kept as a string.  The trimmed text \<open>v\<close> of a parameter is
  decoded when it begins with \<open>[\<close> or \<open>{\<close> and \<open>json.loads\<close> returns a value, and kept as
  the string \<open>v\<close> when it begins otherwise or \<open>json.loads\<close> raises \<open>JSONDecodeError\<close>; for
  the text \<open><tool_call><function=f><parameter=x>[1,2,3]</parameter></function></tool_call>\<close>
  the argument \<open>x\<close> is the value that \<open>json.loads\<close> decodes from \<open>[1,2,3]\<close>.  The \<open>try\<close> statement has the one handler
  \<open>except json.JSONDecodeError\<close>, and \<open>json.loads\<close> raises other exceptions: \<open>ValueError\<close>
  for an integer literal of more digits than the limit of the integer conversion (4300
  by default), \<open>RecursionError\<close> for a nesting deeper than the recursion limit.  For a
  function block whose parameter is \<open>[\<close>, \<open>n\<close> digits \<open>1\<close> and \<open>]\<close>, and for one whose
  parameter is \<open>n + 1\<close> opening brackets, \<open>parse_tool_calls\<close> stores the decoded value when
  \<open>json.loads\<close> returns one, stores the string when \<open>json.loads\<close> raises
  \<open>JSONDecodeError\<close>, and raises what \<open>json.loads\<close> raises otherwise.  The one exception
  that \<open>parse_tool_calls\<close> never raises is \<open>JSONDecodeError\<close>.  With a \<open>json.loads\<close> that
  raises \<open>ValueError\<close> on a text of more than 4300 digits, the block with 4301 digits
  makes \<open>parse_tool_calls\<close> raise \<open>ValueError\<close>; with one that raises \<open>RecursionError\<close>
  on more than 1000 brackets, the block with 1001 brackets makes it raise
  \<open>RecursionError\<close>.
\<close>

theorem parse_tool_calls_uncaught_exception:
  "decode_value loads v
     = (if startswith v ''['' \<or> startswith v ''{''
        then (case loads v of
                Inr parsed_value \<Rightarrow> Inr (PJson parsed_value)
              | Inl e \<Rightarrow> if e = JSONDecodeError then Inr (PStr v) else Inl e)
        else Inr (PStr v))
   \<and> parse_tool_calls loads dumps hash
     (''<function=f><parameter=x>'' @ (''['' @ replicate n (CHR ''1'') @ '']'')
        @ ''</parameter></function>'')
   = (case loads (''['' @ replicate n (CHR ''1'') @ '']'') of
        Inl e \<Rightarrow>
          if e = JSONDecodeError
          then Inr [\<lparr>tc_id = str_int (hash ''f_0_0'' mod 1000000000),
                     tc_type = ''function'',
                     tc_function = \<lparr>fn_name = ''f'',
                       fn_arguments =
                         dumps [(''x'', PStr (''['' @ replicate n (CHR ''1'') @ '']''))]\<rparr>\<rparr>]
          else Inl e
      | Inr parsed_value \<Rightarrow>
          Inr [\<lparr>tc_id = str_int (hash ''f_0_0'' mod 1000000000),
                tc_type = ''function'',
                tc_function = \<lparr>fn_name = ''f'',
                  fn_arguments = dumps [(''x'', PJson parsed_value)]\<rparr>\<rparr>])
   \<and> parse_tool_calls loads dumps hash
     (''<function=f><parameter=x>'' @ replicate (Suc n) (CHR ''['') @ ''</parameter></function>'')
   = (case loads (replicate (Suc n) (CHR ''['')) of
        Inl e \<Rightarrow>
          if e = JSONDecodeError
          then Inr [\<lparr>tc_id = str_int (hash ''f_0_0'' mod 1000000000),
                     tc_type = ''function'',
                     tc_function = \<lparr>fn_name = ''f'',
                       fn_arguments = dumps [(''x'', PStr (replicate (Suc n) (CHR ''['')))]\<rparr>\<rparr>]
          else Inl e
      | Inr parsed_value \<Rightarrow>
          Inr [\<lparr>tc_id = str_int (hash ''f_0_0'' mod 1000000000),
                tc_type = ''function'',
                tc_function = \<lparr>fn_name = ''f'',
                  fn_arguments = dumps [(''x'', PJson parsed_value)]\<rparr>\<rparr>])
   \<and> parse_tool_calls loads dumps hash
     ''<tool_call><function=f><parameter=x>[1,2,3]</parameter></function></tool_call>''
   = (case loads ''[1,2,3]'' of
        Inl e \<Rightarrow>
          if e = JSONDecodeError
          then Inr [\<lparr>tc_id = str_int (hash ''f_0_0'' mod 1000000000),
                     tc_type = ''function'',
                     tc_function = \<lparr>fn_name = ''f'',
                       fn_arguments = dumps [(''x'', PStr ''[1,2,3]'')]\<rparr>\<rparr>]
          else Inl e
      | Inr parsed_value \<Rightarrow>
          Inr [\<lparr>tc_id = str_int (hash ''f_0_0'' mod 1000000000),
                tc_type = ''function'',
                tc_function = \<lparr>fn_name = ''f'',
                  fn_arguments = dumps [(''x'', PJson parsed_value)]\<rparr>\<rparr>])
   \<and> parse_tool_calls loads dumps hash content \<noteq> Inl JSONDecodeError"
proof -
  note 1 = decode_value_cases [of loads v]
  note 2 = parse_long_integer [of loads dumps hash n]
  note 3 = parse_deep_nesting [of loads dumps hash n]
  have p: "prefix ''['' ''[1,2,3]''" by simp
  have 4: "parse_tool_calls loads dumps hash
     ''<tool_call><function=f><parameter=x>[1,2,3]</parameter></function></tool_call>''
   = (case loads ''[1,2,3]'' of
        Inl e \<Rightarrow>
          if e = JSONDecodeError
          then Inr [\<lparr>tc_id = str_int (hash ''f_0_0'' mod 1000000000),
                     tc_type = ''function'',
                     tc_function = \<lparr>fn_name = ''f'',
                       fn_arguments = dumps [(''x'', PStr ''[1,2,3]'')]\<rparr>\<rparr>]
          else Inl e
      | Inr parsed_value \<Rightarrow>
          Inr [\<lparr>tc_id = str_int (hash ''f_0_0'' mod 1000000000),
                tc_type = ''function'',
                tc_function = \<lparr>fn_name = ''f'',
                  fn_arguments = dumps [(''x'', PJson parsed_value)]\<rparr>\<rparr>])"
    unfolding scenario_array decode_value_json_like [OF p]
    by (simp split: sum.splits)
  note 5 = parse_tool_calls_no_decode_error [of loads dumps hash content]
  from 1 2 3 4 5 show ?thesis by (intro conjI)
qed

theorem parse_tool_calls_uncaught_exception_witness:
  "parse_tool_calls (\<lambda>s. if 4300 < length s - 2 then Inl ValueError else Inr s) (\<lambda>d. []) (\<lambda>s. 0)
     (''<function=f><parameter=x>'' @ (''['' @ replicate 4301 (CHR ''1'') @ '']'')
        @ ''</parameter></function>'')
   = Inl ValueError
   \<and> parse_tool_calls (\<lambda>s. if 1000 < length s then Inl RecursionError else Inl JSONDecodeError :: py_exception + unit)
       (\<lambda>d. []) (\<lambda>s. 0)
     (''<function=f><parameter=x>'' @ replicate (Suc 1000) (CHR ''['') @ ''</parameter></function>'')
   = Inl RecursionError"
proof -
  let ?L = "\<lambda>s :: string. if 4300 < length s - 2 then Inl ValueError else Inr s"
  let ?R = "\<lambda>s :: string. if 1000 < length s then Inl RecursionError
                           else Inl JSONDecodeError :: py_exception + unit"
  have l: "?L (''['' @ replicate 4301 (CHR ''1'') @ '']'') = Inl ValueError" by simp
  have r: "?R (replicate (Suc 1000) (CHR ''['')) = Inl RecursionError" by simp
  from parse_tool_calls_uncaught_exception [of ?L "[]" "\<lambda>d. []" "\<lambda>s. 0" 4301 "[]"]
  have 1: "parse_tool_calls ?L (\<lambda>d. []) (\<lambda>s. 0)
     (''<function=f><parameter=x>'' @ (''['' @ replicate 4301 (CHR ''1'') @ '']'')
        @ ''</parameter></function>'')
   = Inl ValueError"
    unfolding l by simp
  from parse_tool_calls_uncaught_exception [of ?R "[]" "\<lambda>d. []" "\<lambda>s. 0" 1000 "[]"]
  have 2: "parse_tool_calls ?R (\<lambda>d. []) (\<lambda>s. 0)
     (''<function=f><parameter=x>'' @ replicate (Suc 1000) (CHR ''['') @ ''</parameter></function>'')
   = Inl RecursionError"
    unfolding r by simp
  from 1 2 show ?thesis by (intro conjI)
qed

text \<open>
  C7.  The claim says that a lone \<open><tool_call>\<close> left after the removal of the complete
  spans is deleted only when the original input has no \<open></tool_call>\<close> anywhere, and
  likewise for a lone closing tag.  The function tests the text that is left after the
  removal, not its input: in \<open><tool_call>a</tool_call><tool_call>b\<close> the input has a
  closing tag, the first span is removed with it, and the opening tag that is left is
  deleted; in \<open><tool_call>a</tool_call>b</tool_call>\<close> the same happens to the closing
  tag that is left.
\<close>

theorem lone_tag_original_text_counterexample:
  "contains ''<tool_call>a</tool_call><tool_call>b'' ''</tool_call>''
   \<and> removed ''<tool_call>a</tool_call><tool_call>b'' = ''<tool_call>b''
   \<and> clean_content ''<tool_call>a</tool_call><tool_call>b'' = ''b''
   \<and> contains ''<tool_call>a</tool_call>b</tool_call>'' ''<tool_call>''
   \<and> removed ''<tool_call>a</tool_call>b</tool_call>'' = ''b</tool_call>''
   \<and> clean_content ''<tool_call>a</tool_call>b</tool_call>'' = ''b''"
  by code_simp

text \<open>
  C7, as amended.  Whether a lone wrapper tag is deleted depends on the text that is left
  after the complete spans are removed (\<open>removed content\<close>): when both tags occur in it,
  or neither, that text is only trimmed; when \<open><tool_call>\<close> occurs in it and
  \<open></tool_call>\<close> does not, every \<open><tool_call>\<close> is deleted (and the test for a lone
  closing tag is then made on the result); when \<open></tool_call>\<close> occurs in it and
  \<open><tool_call>\<close> does not, every \<open></tool_call>\<close> is deleted.
\<close>

theorem lone_tag_remaining_text:
  "(sublist ''<tool_call>'' (removed content) \<and> sublist ''</tool_call>'' (removed content)
      \<longrightarrow> clean_content content = strip (removed content))
   \<and> (sublist ''<tool_call>'' (removed content) \<and> \<not> sublist ''</tool_call>'' (removed content)
      \<longrightarrow> clean_content content
            = strip (strip_lone_close (replace_empty ''<tool_call>'' (removed content))))
   \<and> (\<not> sublist ''<tool_call>'' (removed content) \<and> sublist ''</tool_call>'' (removed content)
      \<longrightarrow> clean_content content = strip (replace_empty ''</tool_call>'' (removed content)))
   \<and> (\<not> sublist ''<tool_call>'' (removed content) \<and> \<not> sublist ''</tool_call>'' (removed content)
      \<longrightarrow> clean_content content = strip (removed content))"
proof (intro conjI impI)
  assume "sublist ''<tool_call>'' (removed content) \<and> sublist ''</tool_call>'' (removed content)"
  then have "strip_lone_close (strip_lone_open (removed content)) = removed content"
    by (intro strip_lone_fixed) blast+
  then show "clean_content content = strip (removed content)"
    by (simp only: clean_content_def)
next
  assume "sublist ''<tool_call>'' (removed content) \<and> \<not> sublist ''</tool_call>'' (removed content)"
  then have "strip_lone_open (removed content) = replace_empty ''<tool_call>'' (removed content)"
    by (simp only: strip_lone_open_def contains_iff simp_thms if_True)
  then show "clean_content content
      = strip (strip_lone_close (replace_empty ''<tool_call>'' (removed content)))"
    by (simp only: clean_content_def)
next
  assume h: "\<not> sublist ''<tool_call>'' (removed content) \<and> sublist ''</tool_call>'' (removed content)"
  then have "strip_lone_open (removed content) = removed content"
    by (simp only: strip_lone_open_def contains_iff simp_thms if_False)
  moreover from h have "strip_lone_close (removed content)
      = replace_empty ''</tool_call>'' (removed content)"
    by (simp only: strip_lone_close_def contains_iff simp_thms if_True)
  ultimately show "clean_content content = strip (replace_empty ''</tool_call>'' (removed content))"
    by (simp only: clean_content_def)
next
  assume "\<not> sublist ''<tool_call>'' (removed content) \<and> \<not> sublist ''</tool_call>'' (removed content)"
  then have "strip_lone_close (strip_lone_open (removed content)) = removed content"
    by (intro strip_lone_fixed) blast+
  then show "clean_content content = strip (removed content)"
    by (simp only: clean_content_def)
qed

theorem lone_tag_remaining_text_witness:
  "clean_content ''</tool_call> x <tool_call> '' = ''</tool_call> x <tool_call>''
   \<and> clean_content ''<tool_call>a</tool_call> <tool_call>b'' = ''b''
   \<and> clean_content ''<tool_call>a</tool_call>b</tool_call> '' = ''b''
   \<and> clean_content ''<tool_call>a</tool_call> b'' = ''b''"
proof -
  have "contains (removed ''</tool_call> x <tool_call> '') ''<tool_call>''"
       "contains (removed ''</tool_call> x <tool_call> '') ''</tool_call>''"
    by code_simp+
  then have "sublist ''<tool_call>'' (removed ''</tool_call> x <tool_call> '')
             \<and> sublist ''</tool_call>'' (removed ''</tool_call> x <tool_call> '')"
    by (simp only: contains_iff simp_thms)
  with lone_tag_remaining_text [of "''</tool_call> x <tool_call> ''"]
  have "clean_content ''</tool_call> x <tool_call> '' = strip (removed ''</tool_call> x <tool_call> '')"
    by blast
  also have "\<dots> = ''</tool_call> x <tool_call>''" by code_simp
  finally have 1: "clean_content ''</tool_call> x <tool_call> '' = ''</tool_call> x <tool_call>''" .
  have "contains (removed ''<tool_call>a</tool_call> <tool_call>b'') ''<tool_call>''"
       "\<not> contains (removed ''<tool_call>a</tool_call> <tool_call>b'') ''</tool_call>''"
    by code_simp+
  then have "sublist ''<tool_call>'' (removed ''<tool_call>a</tool_call> <tool_call>b'')
             \<and> \<not> sublist ''</tool_call>'' (removed ''<tool_call>a</tool_call> <tool_call>b'')"
    by (simp only: contains_iff simp_thms)
  with lone_tag_remaining_text [of "''<tool_call>a</tool_call> <tool_call>b''"]
  have "clean_content ''<tool_call>a</tool_call> <tool_call>b''
        = strip (strip_lone_close (replace_empty ''<tool_call>''
            (removed ''<tool_call>a</tool_call> <tool_call>b'')))"
    by blast
  also have "\<dots> = ''b''" by code_simp
  finally have 2: "clean_content ''<tool_call>a</tool_call> <tool_call>b'' = ''b''" .
  have "\<not> contains (removed ''<tool_call>a</tool_call>b</tool_call> '') ''<tool_call>''"
       "contains (removed ''<tool_call>a</tool_call>b</tool_call> '') ''</tool_call>''"
    by code_simp+
  then have "\<not> sublist ''<tool_call>'' (removed ''<tool_call>a</tool_call>b</tool_call> '')
             \<and> sublist ''</tool_call>'' (removed ''<tool_call>a</tool_call>b</tool_call> '')"
    by (simp only: contains_iff simp_thms)
  with lone_tag_remaining_text [of "''<tool_call>a</tool_call>b</tool_call> ''"]
  have "clean_content ''<tool_call>a</tool_call>b</tool_call> ''
        = strip (replace_empty ''</tool_call>'' (removed ''<tool_call>a</tool_call>b</tool_call> ''))"
    by blast
  also have "\<dots> = ''b''" by code_simp
  finally have 3: "clean_content ''<tool_call>a</tool_call>b</tool_call> '' = ''b''" .
  have "\<not> contains (removed ''<tool_call>a</tool_call> b'') ''<tool_call>''"
       "\<not> contains (removed ''<tool_call>a</tool_call> b'') ''</tool_call>''"
    by code_simp+
  then have "\<not> sublist ''<tool_call>'' (removed ''<tool_call>a</tool_call> b'')
             \<and> \<not> sublist ''</tool_call>'' (removed ''<tool_call>a</tool_call> b'')"
    by (simp only: contains_iff simp_thms)
  with lone_tag_remaining_text [of "''<tool_call>a</tool_call> b''"]
  have "clean_content ''<tool_call>a</tool_call> b'' = strip (removed ''<tool_call>a</tool_call> b'')"
    by blast
  also have "\<dots> = ''b''" by code_simp
  finally have 4: "clean_content ''<tool_call>a</tool_call> b'' = ''b''" .
  from 1 2 3 4 show ?thesis by (simp only: simp_thms)
qed

text \<open>
  C8.  The claim says that the identifiers of the tool calls parsed from one content are
  pairwise different.  The identifier of call number \<open>k\<close> is
  \<open>str(hash(name_k_k) % 1000000000)\<close>: two calls have the same identifier as soon as the
  hash values of their keys agree modulo \<open>10^9\<close>, as the first part shows for a text of
  two blocks; and since there are only \<open>10^9\<close> identifiers, a text of \<open>10^9 + 1\<close> blocks
  yields \<open>10^9 + 1\<close> tool calls, two of them with the same identifier, whatever \<open>hash\<close>
  is.
\<close>

theorem tool_call_ids_collide:
  "parse_tool_calls loads dumps hash ''<function=f></function><function=f></function>''
     = Inr [\<lparr>tc_id = str_int (hash ''f_0_0'' mod 1000000000), tc_type = ''function'',
              tc_function = \<lparr>fn_name = ''f'', fn_arguments = dumps []\<rparr>\<rparr>,
            \<lparr>tc_id = str_int (hash ''f_1_1'' mod 1000000000), tc_type = ''function'',
              tc_function = \<lparr>fn_name = ''f'', fn_arguments = dumps []\<rparr>\<rparr>]
   \<and> (\<exists>tcs. parse_tool_calls loads dumps hash
                (concat (replicate 1000000001 ''<function=f></function>'')) = Inr tcs
           \<and> length tcs = 1000000001
           \<and> \<not> distinct (map tc_id tcs))"
proof
  have m: "function_matches ''<function=f></function><function=f></function>'' = [(''f'', []), (''f'', [])]"
    by code_simp
  have p: "param_matches [] = []" by (simp add: param_matches_def)
  have s: "strip ''f'' = ''f''" by code_simp
  have k: "id_key ''f'' 0 0 = ''f_0_0''" "id_key ''f'' (Suc 0) (Suc 0) = ''f_1_1''" by code_simp+
  show "parse_tool_calls loads dumps hash ''<function=f></function><function=f></function>''
     = Inr [\<lparr>tc_id = str_int (hash ''f_0_0'' mod 1000000000), tc_type = ''function'',
              tc_function = \<lparr>fn_name = ''f'', fn_arguments = dumps []\<rparr>\<rparr>,
            \<lparr>tc_id = str_int (hash ''f_1_1'' mod 1000000000), tc_type = ''function'',
              tc_function = \<lparr>fn_name = ''f'', fn_arguments = dumps []\<rparr>\<rparr>]"
    by (simp add: parse_tool_calls_def make_tool_call_def Let_def m p s k)
next
  let ?content = "concat (replicate 1000000001 ''<function=f></function>'')"
  have fm: "function_matches ?content = replicate 1000000001 (''f'', [])"
    by (rule function_matches_replicate)
  then have "\<forall>m\<in>set (function_matches ?content). snd m = []" by simp
  then have "\<exists>tcs. parse_tool_calls loads dumps hash ?content = Inr tcs"
    by (rule parse_tool_calls_without_parameters)
  then obtain tcs where t: "parse_tool_calls loads dumps hash ?content = Inr tcs" ..
  from fm have l: "length (function_matches ?content) = 1000000001"
    by (simp only: length_replicate)
  from t have "length tcs = length (function_matches ?content)" by (rule length_parse_tool_calls)
  with l have n: "length tcs = 1000000001" by (simp only:)
  from l have "1000000000 < length (function_matches ?content)" by simp
  with t have d: "\<not> distinct (map tc_id tcs)" by (rule too_many_tool_calls)
  from t n d show "\<exists>tcs. parse_tool_calls loads dumps hash ?content = Inr tcs
           \<and> length tcs = 1000000001
           \<and> \<not> distinct (map tc_id tcs)"
    by (intro exI [of _ tcs] conjI)
qed

text \<open>
  C9.  The claim says that every tool call that \<open>parse_tool_calls\<close> returns has a name
  that is trimmed and not empty.  The pattern \<open><function=(.*?)>\<close> also matches an empty
  name, and a name of blanks is trimmed to the empty string: both texts below yield one
  tool call whose name is empty.
\<close>

theorem tool_call_name_counterexample:
  "parse_tool_calls (\<lambda>s. Inl JSONDecodeError :: py_exception + unit) (\<lambda>d. []) (\<lambda>s. 0)
      ''<function=></function>''
     = Inr [\<lparr>tc_id = ''0'', tc_type = ''function'',
              tc_function = \<lparr>fn_name = [], fn_arguments = []\<rparr>\<rparr>]
   \<and> parse_tool_calls (\<lambda>s. Inl JSONDecodeError :: py_exception + unit) (\<lambda>d. []) (\<lambda>s. 0)
      ''<function=  ><parameter=a>1</parameter></function>''
     = Inr [\<lparr>tc_id = ''0'', tc_type = ''function'',
              tc_function = \<lparr>fn_name = [], fn_arguments = []\<rparr>\<rparr>]"
  by code_simp

text \<open>
  C9, as amended.  The names of the tool calls that \<open>parse_tool_calls\<close> returns are the
  trimmed first groups of the function blocks, in order, and every name is equal to its
  own trim.  (A name is empty when the text between \<open><function=\<close> and the next \<open>>\<close> is
  empty or white space.)
\<close>

theorem tool_call_name_trimmed:
  "parse_tool_calls loads dumps hash content = Inr tcs \<Longrightarrow>
   map (\<lambda>tc. fn_name (tc_function tc)) tcs
     = map (\<lambda>m. strip (fst m)) (function_matches content)
   \<and> (\<forall>tc\<in>set tcs. strip (fn_name (tc_function tc)) = fn_name (tc_function tc))"
proof
  assume r: "parse_tool_calls loads dumps hash content = Inr tcs"
  then show n: "map (\<lambda>tc. fn_name (tc_function tc)) tcs
     = map (\<lambda>m. strip (fst m)) (function_matches content)"
    by (rule parse_tool_calls_names)
  show "\<forall>tc\<in>set tcs. strip (fn_name (tc_function tc)) = fn_name (tc_function tc)"
  proof
    fix tc
    assume "tc \<in> set tcs"
    then have "fn_name (tc_function tc) \<in> set (map (\<lambda>tc. fn_name (tc_function tc)) tcs)"
      by simp
    with n obtain m :: "string \<times> string" where "fn_name (tc_function tc) = strip (fst m)"
      by auto
    then show "strip (fn_name (tc_function tc)) = fn_name (tc_function tc)"
      by (simp only: strip_strip)
  qed
qed

theorem tool_call_name_trimmed_witness:
  "parse_tool_calls (\<lambda>s. Inl JSONDecodeError :: py_exception + unit) (\<lambda>d. []) (\<lambda>s. 0)
      ''<function= get_weather ></function><function=f></function>''
     = Inr [\<lparr>tc_id = ''0'', tc_type = ''function'',
              tc_function = \<lparr>fn_name = ''get_weather'', fn_arguments = []\<rparr>\<rparr>,
            \<lparr>tc_id = ''0'', tc_type = ''function'',
              tc_function = \<lparr>fn_name = ''f'', fn_arguments = []\<rparr>\<rparr>]
   \<and> map (\<lambda>tc. fn_name (tc_function tc))
        [\<lparr>tc_id = ''0'', tc_type = ''function'',
              tc_function = \<lparr>fn_name = ''get_weather'', fn_arguments = []\<rparr>\<rparr>,
         \<lparr>tc_id = ''0'', tc_type = ''function'',
              tc_function = \<lparr>fn_name = ''f'', fn_arguments = []\<rparr>\<rparr>]
      = map (\<lambda>m. strip (fst m))
          (function_matches ''<function= get_weather ></function><function=f></function>'')
   \<and> list_all (\<lambda>tc. strip (fn_name (tc_function tc)) = fn_name (tc_function tc))
        [\<lparr>tc_id = ''0'', tc_type = ''function'',
              tc_function = \<lparr>fn_name = ''get_weather'', fn_arguments = []\<rparr>\<rparr>,
         \<lparr>tc_id = ''0'', tc_type = ''function'',
              tc_function = \<lparr>fn_name = ''f'', fn_arguments = []\<rparr>\<rparr>]"
proof -
  let ?tcs = "[\<lparr>tc_id = ''0'', tc_type = ''function'',
              tc_function = \<lparr>fn_name = ''get_weather'', fn_arguments = []\<rparr>\<rparr>,
         \<lparr>tc_id = ''0'', tc_type = ''function'',
              tc_function = \<lparr>fn_name = ''f'', fn_arguments = []\<rparr>\<rparr>]"
  have r: "parse_tool_calls (\<lambda>s. Inl JSONDecodeError :: py_exception + unit) (\<lambda>d. []) (\<lambda>s. 0)
      ''<function= get_weather ></function><function=f></function>'' = Inr ?tcs"
    by code_simp
  from tool_call_name_trimmed [OF r]
  have n: "map (\<lambda>tc. fn_name (tc_function tc)) ?tcs
      = map (\<lambda>m. strip (fst m))
          (function_matches ''<function= get_weather ></function><function=f></function>'')"
    and t: "\<forall>tc\<in>set ?tcs. strip (fn_name (tc_function tc)) = fn_name (tc_function tc)"
    by (rule conjunct1, rule conjunct2)
  from t have a: "list_all (\<lambda>tc. strip (fn_name (tc_function tc)) = fn_name (tc_function tc)) ?tcs"
    by (simp only: list_all_iff)
  from r n a show ?thesis by (intro conjI)
qed

text \<open>
  C10.  Whenever \<open>is_complete_tool_call\<close> holds of a content, \<open>has_partial_tool_call\<close>
  holds of it too: a complete tool call contains a structural marker.
\<close>

theorem complete_implies_partial:
  "is_complete_tool_call content \<Longrightarrow> has_partial_tool_call content"
proof (cases "contains content ''<tool_call>''")
  case True
  then show ?thesis by (simp add: has_partial_tool_call_def markers_def)
next
  case False
  assume "is_complete_tool_call content"
  with False have "re_search_span ''<function='' ''</function>'' content"
    by (simp add: is_complete_tool_call_def)
  then have "contains content ''<function=''"
    by (simp add: contains_iff re_search_span_sublist)
  then show ?thesis by (simp add: has_partial_tool_call_def markers_def)
qed

theorem complete_implies_partial_witness:
  "is_complete_tool_call ''<function=f></function>''
   \<and> has_partial_tool_call ''<function=f></function>''"
proof -
  have c: "is_complete_tool_call ''<function=f></function>''"
    by code_simp
  from complete_implies_partial [OF c] c show ?thesis by (simp only: simp_thms)
qed

end
